theory Spec2Isabelle
  imports Complex_Main
begin

section \<open>Record model of scrapexam.py\<close>

text \<open>
  The scraper keeps every student as a nested dictionary
  \<^verbatim>\<open>{"USN", "Name", "CGPA", "Semesters": [{"Semester", "SGPA", "Courses": [...]}]}\<close>.
  Each dictionary becomes a record whose fields carry the dictionary keys.  A value that
  may be \<^verbatim>\<open>None\<close> is an \<open>option\<close>.  Python floats are only stored, copied and
  tested against \<^verbatim>\<open>None\<close> by the code below, so they are read as real numbers.
\<close>

type_synonym pyfloat = real

record course =
  Course_Code :: string
  Course_Name :: string
  Grade :: string
  Timestamp :: string

record semester =
  Semester :: "int option"
  SGPA :: "pyfloat option"
  Courses :: "course list"

record student =
  USN :: string
  Name :: string
  CGPA :: "pyfloat option"
  Semesters :: "semester list"

text \<open>
  \<^verbatim>\<open>students_map\<close>: a dict from USN to the student object.  The insertion order of the
  dict matters only when the students are written out at the end, which is not modelled.
\<close>

type_synonym record_map = "string \<rightharpoonup> student"

subsection \<open>ensure_student\<close>

text \<open>
  Python truthiness of the \<^verbatim>\<open>name\<close> argument (\<^verbatim>\<open>str | None\<close>): \<^verbatim>\<open>None\<close> and the
  empty string are falsy.  \<^verbatim>\<open>name or ""\<close> is the string itself when truthy, else \<^verbatim>\<open>""\<close>.
\<close>

definition truthy :: "string option \<Rightarrow> bool" where
  "truthy name = (case name of None \<Rightarrow> False | Some n \<Rightarrow> n \<noteq> [])"

definition or_empty :: "string option \<Rightarrow> string" where
  "or_empty name = (case name of None \<Rightarrow> [] | Some n \<Rightarrow> n)"

definition ensure_student ::
  "record_map \<Rightarrow> string \<Rightarrow> string option \<Rightarrow> pyfloat option \<Rightarrow> record_map" where
  "ensure_student rm usn name cgpa =
     (case rm usn of
        None \<Rightarrow>
          rm(usn \<mapsto> \<lparr>USN = usn, Name = or_empty name, CGPA = cgpa, Semesters = []\<rparr>)
      | Some st \<Rightarrow>
          (let st1 = (if truthy name \<and> (Name st = [] \<or> Name st = ''Name Not Found'')
                      then st\<lparr>Name := or_empty name\<rparr> else st);
               st2 = (if cgpa \<noteq> None then st1\<lparr>CGPA := cgpa\<rparr> else st1)
           in rm(usn \<mapsto> st2)))"

subsection \<open>merge_semesters\<close>

text \<open>
  \<^verbatim>\<open>idx_by_sem = {s.get("Semester"): i for i, s in enumerate(student_obj["Semesters"])}\<close>:
  a later semester with the same key overwrites the index of an earlier one, and
  \<^verbatim>\<open>None\<close> is a dictionary key like any other.
\<close>

definition idx_by_sem :: "semester list \<Rightarrow> (int option \<rightharpoonup> nat)" where
  "idx_by_sem sems = fold (\<lambda>(i, s) m. m(Semester s \<mapsto> i)) (enumerate 0 sems) Map.empty"

definition course_key :: "course \<Rightarrow> string \<times> string \<times> string" where
  "course_key c = (Course_Code c, Grade c, Course_Name c)"

text \<open>
  The inner loop: \<^verbatim>\<open>existing\<close> is computed once from the destination's courses, before
  the loop, and every incoming course whose key is not in it is appended.
\<close>

definition merge_courses :: "course list \<Rightarrow> course list \<Rightarrow> course list" where
  "merge_courses dest_courses new_courses =
     (let existing = set (map course_key dest_courses)
      in fold (\<lambda>c acc. if course_key c \<notin> existing then acc @ [c] else acc)
           new_courses dest_courses)"

definition merge_into :: "semester \<Rightarrow> semester \<Rightarrow> semester" where
  "merge_into dest sem =
     (let dest1 = (if SGPA dest = None \<and> SGPA sem \<noteq> None
                   then dest\<lparr>SGPA := SGPA sem\<rparr> else dest)
      in dest1\<lparr>Courses := merge_courses (Courses dest1) (Courses sem)\<rparr>)"

text \<open>
  One iteration of \<^verbatim>\<open>for sem in new_semesters\<close>.  The index \<open>idx\<close> is the one built
  before the loop; the source does not touch it inside the loop.  Every index it holds is a
  position of the list as it was before the loop, and the list only grows, so the read
  \<^verbatim>\<open>student_obj["Semesters"][idx_by_sem[s_no]]\<close> is always in range.

  The source appends the fragment object itself, which the record then shares with the
  caller's list.  Semesters are values here: within one call an appended fragment is never a
  destination (the index does not hold its position), and main builds fresh fragments for
  every call, so no later mutation reaches a shared object.
\<close>

definition merge_step :: "(int option \<rightharpoonup> nat) \<Rightarrow> semester \<Rightarrow> semester list \<Rightarrow> semester list" where
  "merge_step idx sem sems =
     (case idx (Semester sem) of
        Some i \<Rightarrow> sems[i := merge_into (sems ! i) sem]
      | None \<Rightarrow> sems @ [sem])"

definition merge_semesters :: "student \<Rightarrow> semester list \<Rightarrow> student" where
  "merge_semesters student_obj new_semesters =
     (let idx = idx_by_sem (Semesters student_obj)
      in student_obj\<lparr>Semesters := fold (merge_step idx) new_semesters (Semesters student_obj)\<rparr>)"

text \<open>
  The two calls main makes for a found identifier:
  \<^verbatim>\<open>stu = ensure_student(students_map, usn, name, cgpa); merge_semesters(stu, semesters)\<close>.
  \<^verbatim>\<open>stu\<close> is the object stored in the map, so the mutation is written back.
\<close>

definition merge ::
  "record_map \<Rightarrow> string \<Rightarrow> string option \<Rightarrow> pyfloat option \<Rightarrow> semester list \<Rightarrow> record_map" where
  "merge rm usn name cgpa semesters =
     (let rm1 = ensure_student rm usn name cgpa
      in case rm1 usn of
           None \<Rightarrow> rm1
         | Some stu \<Rightarrow> rm1(usn \<mapsto> merge_semesters stu semesters))"

text \<open>
  The part of the loop of \<^verbatim>\<open>merge_semesters\<close> that works on semesters already in the
  record: every fragment whose number is in the index is merged into its destination, the
  others are passed over.
\<close>

definition upd_only :: "(int option \<rightharpoonup> nat) \<Rightarrow> semester list \<Rightarrow> semester list \<Rightarrow> semester list" where
  "upd_only idx new sems =
     fold (\<lambda>g U. case idx (Semester g) of Some i \<Rightarrow> U[i := merge_into (U ! i) g] | None \<Rightarrow> U) new sems"

subsection \<open>Example values\<close>

text \<open>Concrete courses, fragments and students on which the operations are evaluated.\<close>

definition cs301 :: course where
  "cs301 = \<lparr>Course_Code = ''CS301'', Course_Name = ''Algo'', Grade = ''A'', Timestamp = ''10:00:00''\<rparr>"

definition cs302 :: course where
  "cs302 = \<lparr>Course_Code = ''CS302'', Course_Name = ''OS'', Grade = ''B'', Timestamp = ''10:00:01''\<rparr>"

definition sem_of :: "int option \<Rightarrow> course list \<Rightarrow> semester" where
  "sem_of n cs = \<lparr>Semester = n, SGPA = None, Courses = cs\<rparr>"

definition stu_of :: "semester list \<Rightarrow> student" where
  "stu_of sems = \<lparr>USN = ''1MS21AD001'', Name = ''Asha'', CGPA = None, Semesters = sems\<rparr>"

section \<open>Enumeration of identifiers in main\<close>

subsection \<open>Configuration constants\<close>

definition ROLL_START :: nat where "ROLL_START = 1"

definition DIP_START :: nat where "DIP_START = 401"

definition MAX_CONSEC_OOPS :: nat where "MAX_CONSEC_OOPS = 5"

definition RETRY_ON_TIMEOUT :: nat where "RETRY_ON_TIMEOUT = 2"

subsection \<open>The USN string\<close>

text \<open>
  \<^verbatim>\<open>usn = f"1MS{year}{branch}{roll:03d}"\<close>: the roll number in decimal, padded with zeros
  on the left to at least three digits.
\<close>

definition digit_of :: "nat \<Rightarrow> char" where
  "digit_of d = ''0123456789'' ! (d mod 10)"

function str_nat :: "nat \<Rightarrow> string" where
  "str_nat n = (if n < 10 then [digit_of n] else str_nat (n div 10) @ [digit_of n])"
  by pat_completeness auto
termination
  by (relation "measure (\<lambda>n. n)") auto

declare str_nat.simps [simp del]

definition fmt_03d :: "nat \<Rightarrow> string" where
  "fmt_03d n = replicate (3 - length (str_nat n)) (CHR ''0'') @ str_nat n"

definition usn_of :: "string \<Rightarrow> string \<Rightarrow> nat \<Rightarrow> string" where
  "usn_of year branch roll = ''1MS'' @ year @ branch @ fmt_03d roll"

subsection \<open>The loop over one track\<close>

text \<open>
  What \<^verbatim>\<open>submit_and_collect_usn\<close> hands back to main: it raises, or it returns the tuple
  \<^verbatim>\<open>(found, name, cgpa, semesters)\<close>.
\<close>

datatype py_exception = TimeoutException | OtherException

type_synonym scrape_result = "bool \<times> string option \<times> pyfloat option \<times> semester list"

type_synonym call_outcome = "py_exception + scrape_result"

text \<open>
  The calls main makes on the browser session are recorded as events: the submission of a
  USN, and the call of \<^verbatim>\<open>go_back_to_usn_entry_keep_session\<close>.
\<close>

datatype event = Submit string | GoBack

record track_state =
  consec_oops :: nat
  roll :: nat
  students_map :: record_map
  events :: "event list"

text \<open>
  The \<^verbatim>\<open>while True\<close> loop of a track has no bound of its own: it ends only through
  \<^verbatim>\<open>break\<close>.  What each iteration learns from the session is the outcome of one call of
  \<^verbatim>\<open>submit_and_collect_usn\<close>, so the loop is a function of the list of these outcomes, in
  call order.  \<open>Break s\<close>: the loop left through \<^verbatim>\<open>break\<close> in state \<open>s\<close>, the remaining
  outcomes were never asked for.  \<open>Pending s\<close>: every outcome of the list was consumed and
  the loop is about to submit the next USN in state \<open>s\<close>.

  The body is the one main repeats for the normal and the diploma track:
  \<^verbatim>\<open>
    try: found, name, cgpa, semesters = submit_and_collect_usn(driver, usn)
    except Exception:
        try: go_back_to_usn_entry_keep_session(driver)
        except Exception: pass
        roll += 1; continue
    if not found:
        consec_oops += 1
        if consec_oops >= MAX_CONSEC_OOPS:
            go_back_to_usn_entry_keep_session(driver); break
        go_back_to_usn_entry_keep_session(driver)
    else:
        consec_oops = 0
        stu = ensure_student(students_map, usn, name, cgpa); merge_semesters(stu, semesters)
    roll += 1
  \<close>
\<close>

datatype loop_exit = Break track_state | Pending track_state

fun track_loop :: "nat \<Rightarrow> string \<Rightarrow> string \<Rightarrow> track_state \<Rightarrow> call_outcome list \<Rightarrow> loop_exit" where
  "track_loop max_oops year branch s [] = Pending s"
| "track_loop max_oops year branch s (r # rs) =
     (let usn = usn_of year branch (roll s);
          s1 = s\<lparr>events := events s @ [Submit usn]\<rparr>
      in case r of
           Inl e \<Rightarrow>
             track_loop max_oops year branch
               (s1\<lparr>events := events s1 @ [GoBack], roll := roll s1 + 1\<rparr>) rs
         | Inr (found, name, cgpa, semesters) \<Rightarrow>
             if \<not> found then
               (let s2 = s1\<lparr>consec_oops := consec_oops s1 + 1\<rparr>
                in if consec_oops s2 \<ge> max_oops
                   then Break (s2\<lparr>events := events s2 @ [GoBack]\<rparr>)
                   else track_loop max_oops year branch
                          (s2\<lparr>events := events s2 @ [GoBack], roll := roll s2 + 1\<rparr>) rs)
             else
               track_loop max_oops year branch
                 (s1\<lparr>consec_oops := 0,
                     students_map := merge (students_map s1) usn name cgpa semesters,
                     roll := roll s1 + 1\<rparr>) rs)"

text \<open>
  The normal track of a \<^verbatim>\<open>(year, branch)\<close> group starts at \<^verbatim>\<open>ROLL_START\<close> with the counter
  at zero; the diploma track runs the same loop from \<^verbatim>\<open>DIP_START\<close> under the next year.
\<close>

definition normal_track ::
  "string \<Rightarrow> string \<Rightarrow> record_map \<Rightarrow> event list \<Rightarrow> call_outcome list \<Rightarrow> loop_exit" where
  "normal_track year branch rm evs outcomes =
     track_loop MAX_CONSEC_OOPS year branch
       \<lparr>consec_oops = 0, roll = ROLL_START, students_map = rm, events = evs\<rparr> outcomes"

definition diploma_track ::
  "string \<Rightarrow> string \<Rightarrow> record_map \<Rightarrow> event list \<Rightarrow> call_outcome list \<Rightarrow> loop_exit" where
  "diploma_track dip_year branch rm evs outcomes =
     track_loop MAX_CONSEC_OOPS dip_year branch
       \<lparr>consec_oops = 0, roll = DIP_START, students_map = rm, events = evs\<rparr> outcomes"

text \<open>
  The vocabulary of the stopping rule.  An outcome is Absent when the call returned with
  \<^verbatim>\<open>found\<close> false and Present when it returned with \<^verbatim>\<open>found\<close> true; an identifier whose call
  raised is abandoned and is no outcome.  \<open>trailing_absent\<close> is the length of the run of
  Absent outcomes at the end of a sequence, abandoned identifiers left out.
\<close>

definition is_absent :: "call_outcome \<Rightarrow> bool" where
  "is_absent r = (case r of Inl e \<Rightarrow> False | Inr (found, rest) \<Rightarrow> \<not> found)"

definition is_present :: "call_outcome \<Rightarrow> bool" where
  "is_present r = (case r of Inl e \<Rightarrow> False | Inr (found, rest) \<Rightarrow> found)"

definition is_raised :: "call_outcome \<Rightarrow> bool" where
  "is_raised r = (case r of Inl e \<Rightarrow> True | Inr res \<Rightarrow> False)"

definition trailing_absent :: "call_outcome list \<Rightarrow> nat" where
  "trailing_absent rs = length (takeWhile is_absent (rev (filter (\<lambda>r. \<not> is_raised r) rs)))"

definition absent :: call_outcome where
  "absent = Inr (False, None, None, [])"

definition present :: call_outcome where
  "present = Inr (True, Some ''Asha'', Some 8.5, [sem_of (Some 3) [cs301]])"

section \<open>The browser session\<close>

text \<open>
  Everything the scraper learns from the site comes through Selenium calls on the driver.
  The driver is an abstract state \<open>'d\<close>, web elements are abstract handles \<open>'e\<close>, and
  each helper of the source whose body consists of Selenium calls is an operation that
  returns its result together with the next driver state.  A call that the source wraps
  in \<^verbatim>\<open>try/except\<close> returns \<open>False\<close> or \<open>None\<close> when it raised.
\<close>

datatype indicator = Oops | Cards | Table | Timeout

datatype prompt = AskManualGo | AskCaptcha | AskCaptchaRetry | AskExhausted

text \<open>
  What the source writes to and reads from the console while it handles one USN: the
  warning printed before each automatic re-submission (with the attempt number), the
  notice that the automatic retries are exhausted, the warning that nothing showed up after
  the manual attempt, and every \<^verbatim>\<open>input(...)\<close> that waits for the operator.
\<close>

datatype console = Retrying nat | RetriesExhausted | StillNothing | Ask prompt

record ('d, 'e) session =
  wait_usn_field :: "nat \<Rightarrow> 'd \<Rightarrow> bool \<times> 'd"
  find_usn_field :: "'d \<Rightarrow> 'e option \<times> 'd"
  set_input_value_js :: "'e \<Rightarrow> string \<Rightarrow> 'd \<Rightarrow> bool \<times> 'd"
  click_go_button :: "'d \<Rightarrow> bool \<times> 'd"
  captcha_elements :: "'d \<Rightarrow> bool \<times> 'd"
  console_input :: "prompt \<Rightarrow> 'd \<Rightarrow> 'd"
  wait_for_either :: "nat \<Rightarrow> 'd \<Rightarrow> indicator \<times> 'd"
  go_back_to_usn_entry_keep_session :: "'d \<Rightarrow> bool \<times> 'd"
  page_has_oops :: "'d \<Rightarrow> bool \<times> 'd"
  extract_student_name :: "'d \<Rightarrow> string \<times> 'd"
  get_semester_cards :: "'d \<Rightarrow> 'e list \<times> 'd"
  card_find_input :: "'e \<Rightarrow> 'd \<Rightarrow> 'e option \<times> 'd"
  card_find_button :: "'e \<Rightarrow> 'd \<Rightarrow> 'e option \<times> 'd"
  card_find_clickables :: "'e \<Rightarrow> 'd \<Rightarrow> 'e list \<times> 'd"
  click_element :: "'e \<Rightarrow> 'd \<Rightarrow> bool \<times> 'd"
  back_to_cards :: "'d \<Rightarrow> bool \<times> 'd"
  result_indicators :: "'d \<Rightarrow> bool \<times> 'd"
  extract_semester_number_from_header :: "'d \<Rightarrow> int option \<times> 'd"
  extract_sgpa_from_caption :: "'d \<Rightarrow> pyfloat option \<times> 'd"
  extract_cgpa_if_any :: "'d \<Rightarrow> pyfloat option \<times> 'd"
  extract_courses_from_visible_table :: "'d \<Rightarrow> course list \<times> 'd"

text \<open>
  The operations, by the source text they stand for:
  \<^item> \<open>wait_usn_field secs\<close>: \<^verbatim>\<open>wait(driver, secs).until(EC.presence_of_element_located((By.ID, "usn")))\<close>,
    \<open>False\<close> when it raises \<^verbatim>\<open>TimeoutException\<close>;
  \<^item> \<open>find_usn_field\<close>: \<^verbatim>\<open>driver.find_element(By.ID, "usn")\<close>, \<open>None\<close> when it raises;
  \<^item> \<open>set_input_value_js\<close>: \<open>False\<close> when it raises;
  \<^item> \<open>click_go_button\<close>: the helper returns a boolean and catches every exception;
  \<^item> \<open>captcha_elements\<close>: \<^verbatim>\<open>driver.find_elements(By.ID, "captcha")\<close> is non-empty; the source
    ignores an exception here, which therefore reads as \<open>False\<close>;
  \<^item> \<open>console_input\<close>: \<^verbatim>\<open>input(...)\<close>; the operator may have acted on the browser meanwhile;
  \<^item> \<open>wait_for_either timeout\<close>: the polling helper, by its returned indicator;
  \<^item> \<open>card_find_input\<close>, \<open>card_find_button\<close>, \<open>card_find_clickables\<close>: the three lookups
    of the view button inside a card;
  \<^item> \<open>click_element\<close>: \<^verbatim>\<open>driver.execute_script("arguments[0].click();", view_btn)\<close>, \<open>False\<close>
    when it raises;
  \<^item> \<open>back_to_cards\<close>: \<^verbatim>\<open>driver.back()\<close> followed by the wait for \<^verbatim>\<open>.cn-result-card\<close>,
    \<open>False\<close> when either raises;
  \<^item> \<open>result_indicators\<close>: the header paragraph or the result table body is on the page.
\<close>

subsection \<open>scrape_current_usn_view_structured\<close>

definition not_found :: scrape_result where
  "not_found = (False, None, None, [])"

text \<open>The view button of a card: the input, else the button, else the first clickable.\<close>

definition find_view_btn :: "('d, 'e) session \<Rightarrow> 'e \<Rightarrow> 'd \<Rightarrow> 'e option \<times> 'd" where
  "find_view_btn ss card_el d =
     (let (b1, d1) = card_find_input ss card_el d
      in case b1 of
           Some b \<Rightarrow> (Some b, d1)
         | None \<Rightarrow>
             (let (b2, d2) = card_find_button ss card_el d1
              in case b2 of
                   Some b \<Rightarrow> (Some b, d2)
                 | None \<Rightarrow>
                     (let (cands, d3) = card_find_clickables ss card_el d2
                      in (case cands of [] \<Rightarrow> None | c # cs \<Rightarrow> Some c, d3))))"

text \<open>
  What both flows read from a visible result page: semester number, SGPA, CGPA (a value
  replaces \<^verbatim>\<open>cgpa_final\<close>, \<^verbatim>\<open>None\<close> leaves it) and the courses; a semester is appended
  only \<^verbatim>\<open>if courses:\<close>.
\<close>

definition read_result_page ::
  "('d, 'e) session \<Rightarrow> semester list \<times> pyfloat option \<Rightarrow> 'd \<Rightarrow> (semester list \<times> pyfloat option) \<times> 'd" where
  "read_result_page ss acc d =
     (let (semesters, cgpa_final) = acc;
          (sem_num, d1) = extract_semester_number_from_header ss d;
          (sgpa, d2) = extract_sgpa_from_caption ss d1;
          (cgpa, d3) = extract_cgpa_if_any ss d2;
          cgpa_final1 = (if cgpa \<noteq> None then cgpa else cgpa_final);
          (courses, d4) = extract_courses_from_visible_table ss d3;
          semesters1 = (if courses \<noteq> []
                        then semesters @ [\<lparr>Semester = sem_num, SGPA = sgpa, Courses = courses\<rparr>]
                        else semesters)
      in ((semesters1, cgpa_final1), d4))"

text \<open>
  \<^verbatim>\<open>for idx in range(len(cards))\<close>, over the list of indices.  Each iteration fetches the
  cards again; \<^verbatim>\<open>break\<close> returns the accumulator, \<^verbatim>\<open>continue\<close> goes on with the remaining
  indices.
\<close>

fun cards_loop ::
  "('d, 'e) session \<Rightarrow> nat list \<Rightarrow> semester list \<times> pyfloat option \<Rightarrow> 'd \<Rightarrow>
     (semester list \<times> pyfloat option) \<times> 'd" where
  "cards_loop ss [] acc d = (acc, d)"
| "cards_loop ss (idx # rest) acc d =
     (let (cards, d1) = get_semester_cards ss d
      in if idx \<ge> length cards then (acc, d1)
         else
           (let (view_btn, d2) = find_view_btn ss (cards ! idx) d1
            in case view_btn of
                 None \<Rightarrow> cards_loop ss rest acc d2
               | Some btn \<Rightarrow>
                   (let (clicked, d3) = click_element ss btn d2
                    in if \<not> clicked then cards_loop ss rest acc d3
                       else
                         (let (ind, d4) = wait_for_either ss 10 d3
                          in if ind = Oops
                             then (let (ok, d5) = go_back_to_usn_entry_keep_session ss d4
                                   in cards_loop ss rest acc d5)
                             else
                               (let (acc1, d5) = read_result_page ss acc d4;
                                    (ok, d6) = back_to_cards ss d5
                                in if ok then cards_loop ss rest acc1 d6
                                   else (let (ok1, d7) = go_back_to_usn_entry_keep_session ss d6
                                         in (acc1, d7)))))))"

definition scrape_current_usn_view_structured ::
  "('d, 'e) session \<Rightarrow> string \<Rightarrow> 'd \<Rightarrow> scrape_result \<times> 'd" where
  "scrape_current_usn_view_structured ss usn d =
     (let (oops, d1) = page_has_oops ss d
      in if oops then (not_found, d1)
         else
           (let (name, d2) = extract_student_name ss d1;
                (cards, d3) = get_semester_cards ss d2
            in if cards \<noteq> [] then
                 (let ((semesters, cgpa_final), d4) =
                        cards_loop ss [0..<length cards] ([], None) d3;
                      (ok, d5) = go_back_to_usn_entry_keep_session ss d4
                  in ((semesters \<noteq> [], Some name, cgpa_final, semesters), d5))
               else
                 (let (indicator_present, d4) = result_indicators ss d3
                  in if indicator_present then
                       (let ((semesters, cgpa_final), d5) = read_result_page ss ([], None) d4;
                            (ok, d6) = go_back_to_usn_entry_keep_session ss d5
                        in ((semesters \<noteq> [], Some name, cgpa_final, semesters), d6))
                     else ((False, Some name, None, []), d4))))"

subsection \<open>submit_and_collect_usn\<close>

text \<open>
  The retry loop \<^verbatim>\<open>for attempt in range(RETRY_ON_TIMEOUT + 1)\<close>, with the bound as the
  parameter \<open>retries\<close>.  The result carries the console lines of this and the later
  iterations.
\<close>

function retry_loop ::
  "('d, 'e) session \<Rightarrow> nat \<Rightarrow> 'e \<Rightarrow> string \<Rightarrow> nat \<Rightarrow> 'd \<Rightarrow> scrape_result \<times> 'd \<times> console list" where
  "retry_loop ss retries u usn attempt d =
     (if attempt \<ge> retries + 1 then (not_found, d, [])
      else
        (let (ind, d1) = wait_for_either ss 12 d
         in if ind = Oops then (not_found, d1, [])
            else if ind = Cards \<or> ind = Table then
              (let (res, d2) = scrape_current_usn_view_structured ss usn d1 in (res, d2, []))
            else if attempt < retries then
              (let (filled, d2) = set_input_value_js ss u usn d1;
                   d3 = (if filled then snd (click_go_button ss d2) else d2);
                   (captcha, d4) = captcha_elements ss d3;
                   d5 = (if captcha then console_input ss AskCaptchaRetry d4 else d4);
                   asked = (if captcha then [Ask AskCaptchaRetry] else []);
                   (res, d6, out) = retry_loop ss retries u usn (attempt + 1) d5
               in (res, d6, Retrying (attempt + 1) # asked @ out))
            else
              (let d2 = console_input ss AskExhausted d1;
                   (ind2, d3) = wait_for_either ss 30 d2
               in if ind2 = Cards \<or> ind2 = Table then
                    (let (res, d4) = scrape_current_usn_view_structured ss usn d3
                     in (res, d4, [RetriesExhausted, Ask AskExhausted]))
                  else if ind2 = Oops then (not_found, d3, [RetriesExhausted, Ask AskExhausted])
                  else (not_found, d3, [RetriesExhausted, Ask AskExhausted, StillNothing]))))"
  by pat_completeness auto
termination
  by (relation "measure (\<lambda>(ss, retries, u, usn, attempt, d). retries + 1 - attempt)") auto

declare retry_loop.simps [simp del]

text \<open>
  The whole function.  It raises \<^verbatim>\<open>TimeoutException\<close> when the USN field does not show up
  after the recovery, and whatever the first \<^verbatim>\<open>set_input_value_js\<close> raises; both reach the
  caller.
\<close>

definition submit_and_collect_usn ::
  "('d, 'e) session \<Rightarrow> string \<Rightarrow> 'd \<Rightarrow> call_outcome \<times> 'd \<times> console list" where
  "submit_and_collect_usn ss usn d =
     (let (there, d1) = wait_usn_field ss 6 d;
          (there2, d2) = (if there then (True, d1)
                          else wait_usn_field ss 8 (snd (go_back_to_usn_entry_keep_session ss d1)))
      in if \<not> there2 then (Inl TimeoutException, d2, [])
         else
           (let (field, d3) = find_usn_field ss d2
            in case field of
                 None \<Rightarrow> (Inr not_found, d3, [])
               | Some u \<Rightarrow>
                   (let (filled, d4) = set_input_value_js ss u usn d3
                    in if \<not> filled then (Inl OtherException, d4, [])
                       else
                         (let (clicked, d5) = click_go_button ss d4;
                              d6 = (if clicked then d5 else console_input ss AskManualGo d5);
                              asked_go = (if clicked then [] else [Ask AskManualGo]);
                              (captcha, d7) = captcha_elements ss d6;
                              d8 = (if captcha then console_input ss AskCaptcha d7 else d7);
                              asked_captcha = (if captcha then [Ask AskCaptcha] else []);
                              (res, d9, out) = retry_loop ss RETRY_ON_TIMEOUT u usn 0 d8
                          in (Inr res, d9, asked_go @ asked_captcha @ out)))))"

text \<open>The USNs that were submitted, read off the event list.\<close>

fun submitted :: "event list \<Rightarrow> string list" where
  "submitted [] = []"
| "submitted (Submit u # es) = u # submitted es"
| "submitted (GoBack # es) = submitted es"

text \<open>
  The scenario of the specification: outcomes for the sequence numbers 1 to 7.
\<close>

definition scenario :: "call_outcome list" where
  "scenario = [present, absent, absent, absent, absent, absent, present]"

subsection \<open>Vocabulary for the claims about the session functions\<close>

text \<open>Every semester of a list has at least one course.\<close>

definition has_courses :: "semester list \<Rightarrow> bool" where
  "has_courses sems = (\<forall>s\<in>set sems. Courses s \<noteq> [])"

text \<open>
  A result tuple whose \<^verbatim>\<open>found\<close> flag says that there is a fragment, and whose fragments
  all have courses.
\<close>

definition well_formed_result :: "scrape_result \<Rightarrow> bool" where
  "well_formed_result r = (case r of (found, name, cgpa, sems) \<Rightarrow> found = (sems \<noteq> []) \<and> has_courses sems)"

definition stored_have_courses :: "record_map \<Rightarrow> bool" where
  "stored_have_courses rm = (\<forall>st\<in>ran rm. has_courses (Semesters st))"

text \<open>A session whose result table never yields a course row.\<close>

definition no_course_rows :: "('d, 'e) session \<Rightarrow> bool" where
  "no_course_rows ss = (\<forall>d. fst (extract_courses_from_visible_table ss d) = [])"

definition checked_result :: "('d, 'e) session \<Rightarrow> scrape_result \<Rightarrow> bool" where
  "checked_result ss res \<longleftrightarrow>
     well_formed_result res \<and> (no_course_rows ss \<longrightarrow> snd (snd (snd res)) = [])"

definition outcome_checked :: "call_outcome \<Rightarrow> bool" where
  "outcome_checked r = (case r of Inl e \<Rightarrow> True | Inr res \<Rightarrow> well_formed_result res)"

text \<open>The state in which the loop of a track was left or is waiting.\<close>

fun exit_state :: "loop_exit \<Rightarrow> track_state" where
  "exit_state (Break s) = s"
| "exit_state (Pending s) = s"

text \<open>
  The console of one \<^verbatim>\<open>submit_and_collect_usn\<close> call.  \<open>resolved_run\<close>: the retry loop
  ended on a page it could classify, after the re-submissions 1 to \<open>j\<close>, without asking the
  operator to take over.  \<open>escalated_run\<close>: all re-submissions up to the bound were made, then
  the operator was asked once, and the only line that may follow is the warning that still
  nothing showed up, in which case the result is the not-found tuple.
\<close>

fun is_retrying :: "console \<Rightarrow> bool" where
  "is_retrying (Retrying k) = True"
| "is_retrying e = False"

definition resolved_run :: "nat \<Rightarrow> nat \<Rightarrow> console list \<Rightarrow> bool" where
  "resolved_run attempt retries out \<longleftrightarrow>
     Ask AskExhausted \<notin> set out \<and> StillNothing \<notin> set out \<and>
     (\<exists>j. attempt \<le> j \<and> j \<le> retries \<and>
          filter is_retrying out = map Retrying [Suc attempt..<Suc j])"

definition escalated_run :: "nat \<Rightarrow> nat \<Rightarrow> scrape_result \<Rightarrow> console list \<Rightarrow> bool" where
  "escalated_run attempt retries res out \<longleftrightarrow>
     (\<exists>pre post. out = pre @ [RetriesExhausted, Ask AskExhausted] @ post \<and>
        Ask AskExhausted \<notin> set pre \<and> StillNothing \<notin> set pre \<and>
        filter is_retrying pre = map Retrying [Suc attempt..<Suc retries] \<and>
        (post = [] \<or> post = [StillNothing] \<and> res = not_found))"

subsection \<open>Example sites\<close>

text \<open>
  A site with three semester cards.  The driver state is the page shown: 0 the entry page,
  1 the cards view, 11 to 13 the result pages of the cards.  The page of the second card
  shows the not-found message; the other two list one course each.  The USN field is on the
  entry page and on the cards view.
\<close>

definition cards_site :: "(nat, nat) session" where
  "cards_site =
     \<lparr>wait_usn_field = (\<lambda>secs d. (d \<le> 1, d)),
      find_usn_field = (\<lambda>d. (if d \<le> 1 then Some 0 else None, d)),
      set_input_value_js = (\<lambda>e v d. (True, d)),
      click_go_button = (\<lambda>d. (True, 1)),
      captcha_elements = (\<lambda>d. (False, d)),
      console_input = (\<lambda>p d. d),
      wait_for_either = (\<lambda>secs d. (if d = 1 then Cards else if d = 12 then Oops
                                      else if d = 11 \<or> d = 13 then Table else Timeout, d)),
      go_back_to_usn_entry_keep_session = (\<lambda>d. (True, if d \<ge> 11 then 1 else 0)),
      page_has_oops = (\<lambda>d. (d = 12, d)),
      extract_student_name = (\<lambda>d. (''Asha'', d)),
      get_semester_cards = (\<lambda>d. (if d = 1 then [1, 2, 3] else [], d)),
      card_find_input = (\<lambda>c d. (Some (20 + c), d)),
      card_find_button = (\<lambda>c d. (None, d)),
      card_find_clickables = (\<lambda>c d. ([], d)),
      click_element = (\<lambda>e d. (True, e - 10)),
      back_to_cards = (\<lambda>d. (True, 1)),
      result_indicators = (\<lambda>d. (d = 11 \<or> d = 13, d)),
      extract_semester_number_from_header = (\<lambda>d. (Some (int d - 10), d)),
      extract_sgpa_from_caption = (\<lambda>d. (None, d)),
      extract_cgpa_if_any = (\<lambda>d. (None, d)),
      extract_courses_from_visible_table =
        (\<lambda>d. (if d = 11 then [cs301] else if d = 13 then [cs302] else [], d))\<rparr>"

text \<open>
  A site that never shows a result: every wait times out.  The driver state counts the
  clicks on GO, and the captcha is back from the second click on.
\<close>

definition busy_site :: "(nat, nat) session" where
  "busy_site =
     cards_site\<lparr>click_go_button := (\<lambda>d. (True, d + 1)),
                wait_usn_field := (\<lambda>secs d. (True, d)),
                find_usn_field := (\<lambda>d. (Some 0, d)),
                captcha_elements := (\<lambda>d. (d \<ge> 2, d)),
                wait_for_either := (\<lambda>secs d. (Timeout, d))\<rparr>"

text \<open>The cards site with empty result tables.\<close>

definition blank_site :: "(nat, nat) session" where
  "blank_site = cards_site\<lparr>extract_courses_from_visible_table := (\<lambda>d. ([], d))\<rparr>"

section \<open>Properties of the record merger\<close>

lemmas ex_defs = cs301_def cs302_def sem_of_def stu_of_def

lemmas merge_defs = merge_def ensure_student_def merge_semesters_def merge_step_def merge_into_def
  merge_courses_def idx_by_sem_def course_key_def truthy_def or_empty_def

subsection \<open>The index built by merge_semesters\<close>

lemma idx_by_sem_Nil: "idx_by_sem [] = Map.empty"
  by (simp add: idx_by_sem_def)

lemma idx_by_sem_snoc:
  "idx_by_sem (sems @ [s]) = (idx_by_sem sems)(Semester s \<mapsto> length sems)"
  by (simp add: idx_by_sem_def enumerate_append_eq)

lemma idx_by_sem_None: "idx_by_sem sems k = None \<longleftrightarrow> k \<notin> Semester ` set sems"
  by (induction sems rule: rev_induct) (auto simp: idx_by_sem_Nil idx_by_sem_snoc)

lemma idx_by_sem_bound: "idx_by_sem sems k = Some i \<Longrightarrow> i < length sems"
  by (induction sems rule: rev_induct)
     (auto simp: idx_by_sem_Nil idx_by_sem_snoc less_Suc_eq split: if_splits)

lemma idx_by_sem_key: "idx_by_sem sems k = Some i \<Longrightarrow> Semester (sems ! i) = k"
proof (induction sems rule: rev_induct)
  case Nil
  then show ?case by (simp add: idx_by_sem_Nil)
next
  case (snoc s sems)
  show ?case
  proof (cases "Semester s = k")
    case True
    with snoc.prems have "i = length sems" by (simp add: idx_by_sem_snoc)
    with True show ?thesis by simp
  next
    case False
    with snoc.prems have *: "idx_by_sem sems k = Some i" by (simp add: idx_by_sem_snoc)
    from idx_by_sem_bound[OF *] snoc.IH[OF *] show ?thesis by (simp add: nth_append)
  qed
qed

lemma idx_by_sem_last:
  "idx_by_sem sems k = Some i \<Longrightarrow> i < j \<Longrightarrow> j < length sems \<Longrightarrow> Semester (sems ! j) \<noteq> k"
proof (induction sems rule: rev_induct)
  case Nil
  then show ?case by simp
next
  case (snoc s sems)
  show ?case
  proof (cases "Semester s = k")
    case True
    with snoc.prems(1) have "i = length sems" by (simp add: idx_by_sem_snoc)
    with snoc.prems(2,3) show ?thesis by simp
  next
    case False
    with snoc.prems(1) have *: "idx_by_sem sems k = Some i" by (simp add: idx_by_sem_snoc)
    show ?thesis
    proof (cases "j < length sems")
      case True
      with snoc.IH[OF * snoc.prems(2)] show ?thesis by (simp add: nth_append)
    next
      case False
      with snoc.prems(3) have "j = length sems" by simp
      with \<open>Semester s \<noteq> k\<close> show ?thesis by simp
    qed
  qed
qed

lemma merge_courses_filter:
  "merge_courses ds ns = ds @ filter (\<lambda>c. course_key c \<notin> set (map course_key ds)) ns"
proof -
  have "fold (\<lambda>c acc. if course_key c \<notin> E then acc @ [c] else acc) ns acc
        = acc @ filter (\<lambda>c. course_key c \<notin> E) ns" for E acc
    by (induction ns arbitrary: acc) auto
  then show ?thesis by (simp add: merge_courses_def)
qed

lemma Semester_merge_into: "Semester (merge_into dest sem) = Semester dest"
  by (simp add: merge_into_def Let_def)

lemma Courses_merge_into:
  "Courses (merge_into dest sem) = merge_courses (Courses dest) (Courses sem)"
  by (simp add: merge_into_def Let_def)


lemma idx_by_sem_SomeI:
  assumes "i < length sems" and "Semester (sems ! i) = k"
    and "\<forall>j. i < j \<and> j < length sems \<longrightarrow> Semester (sems ! j) \<noteq> k"
  shows "idx_by_sem sems k = Some i"
proof -
  from assms(1,2) have "k \<in> Semester ` set sems" by (metis imageI nth_mem)
  then obtain i' where i': "idx_by_sem sems k = Some i'"
    using idx_by_sem_None[of sems k] by (cases "idx_by_sem sems k") auto
  have b: "i' < length sems" and key: "Semester (sems ! i') = k"
    using idx_by_sem_bound[OF i'] idx_by_sem_key[OF i'] by simp_all
  have "\<not> i < i'" using assms(3) b key by blast
  moreover have "\<not> i' < i" using idx_by_sem_last[OF i', of i] assms(1,2) by blast
  ultimately have "i' = i" by simp
  with i' show ?thesis by simp
qed

lemma merge_semesters_single:
  "Semesters (merge_semesters st [sem]) = merge_step (idx_by_sem (Semesters st)) sem (Semesters st)"
  by (simp add: merge_semesters_def Let_def)

subsection \<open>Scalar fields\<close>

text \<open>
  C5 (monotonic scalar fill).  For a student already in the map, a merge with a falsy name
  (\<^verbatim>\<open>None\<close> or \<^verbatim>\<open>""\<close>) leaves the name as it is, a non-empty name never becomes empty, and
  a name that is neither empty nor the placeholder \<^verbatim>\<open>"Name Not Found"\<close> is kept whatever
  name arrives (first valid name wins).  A merge with cgpa \<^verbatim>\<open>None\<close> leaves the cgpa as it
  is; a merge with a cgpa value stores that value (last value wins).
\<close>

theorem scalar_fill:
  assumes "rm usn = Some st"
  shows "\<exists>st'. merge rm usn name cgpa sems usn = Some st' \<and>
     (\<not> truthy name \<longrightarrow> Name st' = Name st) \<and>
     (Name st \<noteq> [] \<longrightarrow> Name st' \<noteq> []) \<and>
     (Name st \<noteq> [] \<and> Name st \<noteq> ''Name Not Found'' \<longrightarrow> Name st' = Name st) \<and>
     (cgpa = None \<longrightarrow> CGPA st' = CGPA st) \<and>
     (cgpa \<noteq> None \<longrightarrow> CGPA st' = cgpa)"
  using assms
  by (cases name)
     (auto simp: merge_def ensure_student_def merge_semesters_def truthy_def or_empty_def Let_def)

theorem scalar_fill_witness:
  "\<exists>st'. merge (Map.empty(''1MS21AD001'' \<mapsto> (stu_of [])\<lparr>CGPA := Some 8.1\<rparr>)) ''1MS21AD001''
             (Some ''Bela'') (Some 9.2) [] ''1MS21AD001'' = Some st' \<and>
          Name st' = ''Asha'' \<and> CGPA st' = Some 9.2"
proof -
  let ?st = "(stu_of [])\<lparr>CGPA := Some 8.1\<rparr>"
  let ?rm = "Map.empty(''1MS21AD001'' \<mapsto> ?st)"
  have h: "?rm ''1MS21AD001'' = Some ?st" by simp
  have n: "Name ?st = ''Asha''" by (simp add: ex_defs)
  from scalar_fill[of ?rm "''1MS21AD001''" ?st "Some ''Bela''" "Some 9.2" "[]", OF h]
  show ?thesis unfolding n by auto
qed

subsection \<open>Semesters with an unknown number\<close>

text \<open>
  C2, as the claim states it, fails: a record holding one unknown-number semester with course
  CS301 that receives an unknown-number fragment with course CS302 ends with a single
  unknown-number semester holding both courses.
\<close>

theorem unknown_coalesced:
  "Semesters (merge_semesters (stu_of [sem_of None [cs301]]) [sem_of None [cs302]])
     = [sem_of None [cs301, cs302]]"
  by (simp add: merge_defs ex_defs)

text \<open>
  C2, amended.  \<^verbatim>\<open>None\<close> is a key of the index like any number.  A single unknown-number
  fragment is appended as a new semester when the record holds no unknown-number semester;
  when the record holds one, the fragment is merged into the last such semester and the
  number of semesters does not change.
\<close>

theorem unknown_number_merge:
  assumes "Semester sem = None"
  shows "((\<forall>s\<in>set (Semesters st). Semester s \<noteq> None) \<longrightarrow>
           Semesters (merge_semesters st [sem]) = Semesters st @ [sem]) \<and>
         ((\<exists>s\<in>set (Semesters st). Semester s = None) \<longrightarrow>
           (\<exists>i<length (Semesters st).
              Semester (Semesters st ! i) = None \<and>
              (\<forall>j. i < j \<and> j < length (Semesters st) \<longrightarrow> Semester (Semesters st ! j) \<noteq> None) \<and>
              Semesters (merge_semesters st [sem]) =
                (Semesters st)[i := merge_into (Semesters st ! i) sem] \<and>
              length (Semesters (merge_semesters st [sem])) = length (Semesters st)))"
proof (intro conjI impI)
  assume "\<forall>s\<in>set (Semesters st). Semester s \<noteq> None"
  then have "None \<notin> Semester ` set (Semesters st)" by force
  then have "idx_by_sem (Semesters st) None = None" by (simp add: idx_by_sem_None)
  then show "Semesters (merge_semesters st [sem]) = Semesters st @ [sem]"
    using assms by (simp add: merge_semesters_single merge_step_def)
next
  assume "\<exists>s\<in>set (Semesters st). Semester s = None"
  then have "None \<in> Semester ` set (Semesters st)" by force
  then obtain i where i: "idx_by_sem (Semesters st) None = Some i"
    using idx_by_sem_None[of "Semesters st" None] by (cases "idx_by_sem (Semesters st) None") auto
  have r: "Semesters (merge_semesters st [sem]) = (Semesters st)[i := merge_into (Semesters st ! i) sem]"
    using assms i by (simp add: merge_semesters_single merge_step_def)
  show "\<exists>i<length (Semesters st).
              Semester (Semesters st ! i) = None \<and>
              (\<forall>j. i < j \<and> j < length (Semesters st) \<longrightarrow> Semester (Semesters st ! j) \<noteq> None) \<and>
              Semesters (merge_semesters st [sem]) =
                (Semesters st)[i := merge_into (Semesters st ! i) sem] \<and>
              length (Semesters (merge_semesters st [sem])) = length (Semesters st)"
  proof (intro exI[of _ i] conjI allI impI)
    show "i < length (Semesters st)" by (rule idx_by_sem_bound[OF i])
    show "Semester (Semesters st ! i) = None" by (rule idx_by_sem_key[OF i])
    show "Semester (Semesters st ! j) \<noteq> None" if "i < j \<and> j < length (Semesters st)" for j
      using idx_by_sem_last[OF i, of j] that by simp
    show "Semesters (merge_semesters st [sem]) = (Semesters st)[i := merge_into (Semesters st ! i) sem]"
      by (rule r)
    show "length (Semesters (merge_semesters st [sem])) = length (Semesters st)"
      by (simp add: r)
  qed
qed

theorem unknown_number_merge_witness:
  "Semesters (merge_semesters (stu_of [sem_of (Some 3) [cs301]]) [sem_of None [cs302]])
     = [sem_of (Some 3) [cs301], sem_of None [cs302]] \<and>
   length (Semesters (merge_semesters (stu_of [sem_of None [cs301]]) [sem_of None [cs302]])) = 1"
  using unknown_number_merge[of "sem_of None [cs302]" "stu_of [sem_of (Some 3) [cs301]]"]
        unknown_number_merge[of "sem_of None [cs302]" "stu_of [sem_of None [cs301]]"]
  by (simp add: ex_defs)

subsection \<open>Course identity\<close>

text \<open>
  C6, as the claim states it, fails: the stored semester 3 lists CS301 twice (a fragment is
  stored as scraped), the incoming fragment for semester 3 lists CS301 and CS302; the merged
  course list is CS301, CS301, CS302, which repeats a triple.
\<close>

theorem dedup_fails_on_repeated_triple:
  "map Course_Code (Courses (Semesters
        (merge_semesters (stu_of [sem_of (Some 3) [cs301, cs301]]) [sem_of (Some 3) [cs301, cs302]]) ! 0))
     = [''CS301'', ''CS301'', ''CS302''] \<and>
   \<not> distinct (map course_key (Courses (Semesters
        (merge_semesters (stu_of [sem_of (Some 3) [cs301, cs301]]) [sem_of (Some 3) [cs301, cs302]]) ! 0)))"
  by (simp add: merge_defs ex_defs)

text \<open>
  C6, amended.  Course identity is the triple (code, grade, name).  When a fragment is merged
  into the record's semester of the same number (the last one with that number) and neither
  course list repeats a triple, the semester's resulting course list repeats no triple, its
  length is the size of the union of the two triple sets, and no semester is added.
\<close>

theorem course_dedup:
  assumes i: "i < length (Semesters st)"
    and key: "Semester (Semesters st ! i) = Semester sem"
    and last: "\<forall>j. i < j \<and> j < length (Semesters st) \<longrightarrow> Semester (Semesters st ! j) \<noteq> Semester sem"
    and d1: "distinct (map course_key (Courses (Semesters st ! i)))"
    and d2: "distinct (map course_key (Courses sem))"
  shows "distinct (map course_key (Courses (Semesters (merge_semesters st [sem]) ! i))) \<and>
         length (Courses (Semesters (merge_semesters st [sem]) ! i)) =
           card (set (map course_key (Courses (Semesters st ! i))) \<union>
                 set (map course_key (Courses sem))) \<and>
         length (Semesters (merge_semesters st [sem])) = length (Semesters st)"
proof -
  let ?ds = "Courses (Semesters st ! i)" and ?ns = "Courses sem"
  let ?new = "filter (\<lambda>c. course_key c \<notin> set (map course_key ?ds)) ?ns"
  have idx: "idx_by_sem (Semesters st) (Semester sem) = Some i"
    using idx_by_sem_SomeI[OF i key last] .
  have r: "Semesters (merge_semesters st [sem]) = (Semesters st)[i := merge_into (Semesters st ! i) sem]"
    using idx by (simp add: merge_semesters_single merge_step_def)
  have c: "Courses (Semesters (merge_semesters st [sem]) ! i) = ?ds @ ?new"
    using i by (simp add: r Courses_merge_into merge_courses_filter)
  have dn: "distinct (map course_key ?new)"
    using d2 by (simp add: distinct_map_filter)
  have disj: "set (map course_key ?ds) \<inter> set (map course_key ?new) = {}"
    by auto
  have dist: "distinct (map course_key (?ds @ ?new))"
    using d1 dn disj by simp
  have un: "set (map course_key (?ds @ ?new)) = set (map course_key ?ds) \<union> set (map course_key ?ns)"
    by auto
  have "length (?ds @ ?new) = length (map course_key (?ds @ ?new))" by simp
  also have "\<dots> = card (set (map course_key (?ds @ ?new)))"
    using dist by (rule distinct_card[symmetric])
  also have "\<dots> = card (set (map course_key ?ds) \<union> set (map course_key ?ns))"
    by (simp only: un)
  finally have len: "length (?ds @ ?new) = card (set (map course_key ?ds) \<union> set (map course_key ?ns))" .
  show ?thesis using dist len by (simp add: c) (simp add: r)
qed

theorem course_dedup_witness:
  "distinct (map course_key (Courses (Semesters
        (merge_semesters (stu_of [sem_of (Some 3) [cs301]]) [sem_of (Some 3) [cs301, cs302]]) ! 0))) \<and>
   length (Courses (Semesters
        (merge_semesters (stu_of [sem_of (Some 3) [cs301]]) [sem_of (Some 3) [cs301, cs302]]) ! 0)) = 2"
proof -
  let ?st = "stu_of [sem_of (Some 3) [cs301]]" and ?sem = "sem_of (Some 3) [cs301, cs302]"
  have h1: "0 < length (Semesters ?st)" by (simp add: ex_defs)
  have h2: "Semester (Semesters ?st ! 0) = Semester ?sem" by (simp add: ex_defs)
  have h3: "\<forall>j. 0 < j \<and> j < length (Semesters ?st) \<longrightarrow> Semester (Semesters ?st ! j) \<noteq> Semester ?sem"
    by (auto simp: ex_defs)
  have h4: "distinct (map course_key (Courses (Semesters ?st ! 0)))" by (simp add: ex_defs)
  have h5: "distinct (map course_key (Courses ?sem))" by (simp add: ex_defs course_key_def)
  have "card (set (map course_key (Courses (Semesters ?st ! 0))) \<union> set (map course_key (Courses ?sem))) = 2"
    by (simp add: ex_defs course_key_def card_insert_if)
  with course_dedup[OF h1 h2 h3 h4 h5] show ?thesis by simp
qed

subsection \<open>Two fragments with one number in a single call\<close>

text \<open>
  C7.  The index is built once, before the loop over the incoming fragments, and is not
  extended when a fragment is appended.  Merging two fragments numbered 3 into a student
  without semesters, in one call, stores two semesters numbered 3.
\<close>

theorem same_number_twice_in_one_call:
  "map Semester (Semesters (merge_semesters (stu_of [])
       [sem_of (Some 3) [cs301], sem_of (Some 3) [cs301, cs302]])) = [Some 3, Some 3]"
  by (simp add: merge_defs ex_defs)

text \<open>
  C1.  The same input shows that merging is not idempotent: after the first merge the
  record holds the two fragments as two semesters numbered 3; the second merge of the same
  fragments finds the last of them through the index and adds the first fragment's course
  to it.
\<close>

theorem merge_twice_differs:
  "merge (Map.empty(''1MS21AD001'' \<mapsto> stu_of [])) ''1MS21AD001'' None None
       [sem_of (Some 3) [cs301], sem_of (Some 3) [cs302]] ''1MS21AD001''
     = Some (stu_of [sem_of (Some 3) [cs301], sem_of (Some 3) [cs302]]) \<and>
   merge (merge (Map.empty(''1MS21AD001'' \<mapsto> stu_of [])) ''1MS21AD001'' None None
            [sem_of (Some 3) [cs301], sem_of (Some 3) [cs302]])
         ''1MS21AD001'' None None [sem_of (Some 3) [cs301], sem_of (Some 3) [cs302]] ''1MS21AD001''
     = Some (stu_of [sem_of (Some 3) [cs301], sem_of (Some 3) [cs302, cs301]])"
  by (simp add: merge_defs ex_defs)

subsection \<open>Where a second merge changes nothing\<close>

text \<open>
  The loop of \<^verbatim>\<open>merge_semesters\<close> splits into the updates of the semesters the record
  already has, followed by the fragments whose number the index does not hold, appended in
  order.  When those appended fragments carry pairwise different numbers, merging the same
  fragments again finds every fragment absorbed by its destination and leaves the record as
  it is; a second merge can change the record only through two fragments of one call that
  share a number new to the record.
\<close>

lemma upd_only_Nil: "upd_only idx [] U = U"
  by (simp add: upd_only_def)

lemma upd_only_Cons:
  "upd_only idx (g # f) U =
     upd_only idx f (case idx (Semester g) of Some i \<Rightarrow> U[i := merge_into (U ! i) g] | None \<Rightarrow> U)"
  by (simp add: upd_only_def)

lemma length_upd_only: "length (upd_only idx f U) = length U"
  by (induction f arbitrary: U) (auto simp: upd_only_Nil upd_only_Cons split: option.splits)

lemma upd_only_append:
  "\<forall>k i. idx k = Some i \<longrightarrow> i < length U \<Longrightarrow> upd_only idx f (U @ V) = upd_only idx f U @ V"
proof (induction f arbitrary: U)
  case Nil
  then show ?case by (simp add: upd_only_Nil)
next
  case (Cons g f)
  show ?case
  proof (cases "idx (Semester g)")
    case None
    then show ?thesis using Cons by (simp add: upd_only_Cons)
  next
    case (Some i)
    with Cons.prems have i: "i < length U" by blast
    have b: "\<forall>k j. idx k = Some j \<longrightarrow> j < length (U[i := merge_into (U ! i) g])"
      using Cons.prems by simp
    show ?thesis
      using Some i Cons.IH[OF b] by (simp add: upd_only_Cons list_update_append1 nth_append)
  qed
qed

lemma fold_merge_step_split:
  "\<forall>k i. idx k = Some i \<longrightarrow> i < length U \<Longrightarrow>
     fold (merge_step idx) f U = upd_only idx f U @ filter (\<lambda>g. idx (Semester g) = None) f"
proof (induction f arbitrary: U)
  case Nil
  then show ?case by (simp add: upd_only_Nil)
next
  case (Cons g f)
  show ?case
  proof (cases "idx (Semester g)")
    case None
    have b: "\<forall>k i. idx k = Some i \<longrightarrow> i < length (U @ [g])"
      using Cons.prems by (simp add: less_SucI)
    show ?thesis
      using None Cons.IH[OF b] upd_only_append[OF Cons.prems, of f "[g]"]
      by (simp add: merge_step_def upd_only_Cons)
  next
    case (Some i)
    have b: "\<forall>k j. idx k = Some j \<longrightarrow> j < length (U[i := merge_into (U ! i) g])"
      using Cons.prems by simp
    show ?thesis
      using Some Cons.IH[OF b] by (simp add: merge_step_def upd_only_Cons)
  qed
qed

lemma SGPA_merge_into:
  "SGPA (merge_into d g) = (if SGPA d = None then SGPA g else SGPA d)"
  by (auto simp: merge_into_def Let_def)

lemma merge_into_fixed_iff:
  "merge_into d g = d \<longleftrightarrow>
     (SGPA d = None \<longrightarrow> SGPA g = None) \<and>
     (\<forall>c\<in>set (Courses g). course_key c \<in> course_key ` set (Courses d))"
proof -
  have "merge_into d g = d \<longleftrightarrow>
          SGPA (merge_into d g) = SGPA d \<and> Courses (merge_into d g) = Courses d"
    by (cases d) (auto simp: merge_into_def Let_def)
  also have "\<dots> \<longleftrightarrow> (SGPA d = None \<longrightarrow> SGPA g = None) \<and>
     (\<forall>c\<in>set (Courses g). course_key c \<in> course_key ` set (Courses d))"
    by (auto simp: SGPA_merge_into Courses_merge_into merge_courses_filter filter_empty_conv)
  finally show ?thesis .
qed

lemma merge_into_twice: "merge_into (merge_into d g) g = merge_into d g"
  by (auto simp: merge_into_fixed_iff SGPA_merge_into Courses_merge_into merge_courses_filter)

lemma merge_into_self: "merge_into g g = g"
  by (auto simp: merge_into_fixed_iff)

lemma merge_into_fixed_mono:
  "merge_into d g = d \<Longrightarrow> merge_into (merge_into d h) g = merge_into d h"
  by (auto simp: merge_into_fixed_iff SGPA_merge_into Courses_merge_into merge_courses_filter)

lemma Semester_upd_only: "map Semester (upd_only idx f U) = map Semester U"
proof (induction f arbitrary: U)
  case Nil
  then show ?case by (simp add: upd_only_Nil)
next
  case (Cons g f)
  show ?case
  proof (cases "idx (Semester g)")
    case None
    then show ?thesis by (simp add: upd_only_Cons Cons.IH)
  next
    case (Some i)
    have "map Semester (U[i := merge_into (U ! i) g]) = map Semester U"
      by (simp add: map_update Semester_merge_into list_update_same_conv)
         (metis length_map list_update_beyond list_update_id not_less nth_map)
    with Some show ?thesis by (simp add: upd_only_Cons Cons.IH)
  qed
qed

lemma upd_only_keeps_fixed:
  "i < length U \<Longrightarrow> merge_into (U ! i) g = U ! i \<Longrightarrow>
     merge_into (upd_only idx f U ! i) g = upd_only idx f U ! i"
proof (induction f arbitrary: U)
  case Nil
  then show ?case by (simp add: upd_only_Nil)
next
  case (Cons h f)
  show ?case
  proof (cases "idx (Semester h)")
    case None
    then show ?thesis using Cons by (simp add: upd_only_Cons)
  next
    case (Some j)
    let ?U = "U[j := merge_into (U ! j) h]"
    have "merge_into (?U ! i) g = ?U ! i"
      using Cons.prems by (cases "i = j") (simp_all add: merge_into_fixed_mono)
    moreover have "i < length ?U" using Cons.prems(1) by simp
    ultimately show ?thesis using Some Cons.IH[of ?U] by (simp add: upd_only_Cons)
  qed
qed

lemma upd_only_absorbs:
  "g \<in> set f \<Longrightarrow> idx (Semester g) = Some i \<Longrightarrow> i < length U \<Longrightarrow>
     merge_into (upd_only idx f U ! i) g = upd_only idx f U ! i"
proof (induction f arbitrary: U)
  case Nil
  then show ?case by simp
next
  case (Cons h f)
  let ?U = "case idx (Semester h) of Some j \<Rightarrow> U[j := merge_into (U ! j) h] | None \<Rightarrow> U"
  have len: "i < length ?U" using Cons.prems(3) by (simp split: option.splits)
  show ?case
  proof (cases "g = h")
    case True
    have "merge_into (?U ! i) g = ?U ! i"
      using True Cons.prems(2,3) by (simp add: merge_into_twice)
    from upd_only_keeps_fixed[OF len this] show ?thesis by (simp add: upd_only_Cons)
  next
    case False
    with Cons.prems(1) have "g \<in> set f" by simp
    from Cons.IH[OF this Cons.prems(2) len] show ?thesis by (simp add: upd_only_Cons)
  qed
qed

lemma fold_merge_step_fixed:
  "\<forall>g\<in>set f. \<exists>i. idx (Semester g) = Some i \<and> merge_into (T ! i) g = T ! i \<Longrightarrow>
     fold (merge_step idx) f T = T"
proof (induction f)
  case Nil
  then show ?case by simp
next
  case (Cons g f)
  from Cons.prems obtain i where i: "idx (Semester g) = Some i" "merge_into (T ! i) g = T ! i"
    by auto
  then have "merge_step idx g T = T" by (simp add: merge_step_def)
  with Cons show ?case by simp
qed

lemma distinct_map_nth_neq:
  assumes "distinct (map h xs)" and "p < length xs" and "q < p"
  shows "h (xs ! p) \<noteq> h (xs ! q)"
proof
  assume "h (xs ! p) = h (xs ! q)"
  with assms(2,3) have "map h xs ! p = map h xs ! q" by simp
  with nth_eq_iff_index_eq[OF assms(1), of p q] assms(2,3) show False by simp
qed

lemma merge_semesters_idempotent:
  assumes d: "distinct (map Semester
                 (filter (\<lambda>g. Semester g \<notin> Semester ` set (Semesters st)) f))"
  shows "merge_semesters (merge_semesters st f) f = merge_semesters st f"
proof -
  let ?S = "Semesters st"
  let ?idx = "idx_by_sem ?S"
  let ?U = "upd_only ?idx f ?S"
  let ?A = "filter (\<lambda>g. ?idx (Semester g) = None) f"
  let ?T = "?U @ ?A"
  have bound: "\<forall>k i. ?idx k = Some i \<longrightarrow> i < length ?S"
    by (auto dest: idx_by_sem_bound)
  have T: "fold (merge_step ?idx) f ?S = ?T"
    using fold_merge_step_split[OF bound] .
  have A: "?A = filter (\<lambda>g. Semester g \<notin> Semester ` set ?S) f"
    by (simp add: idx_by_sem_None)
  have dA: "distinct (map Semester ?A)" using d by (simp only: A)
  have len0: "length ?U = length ?S" by (rule length_upd_only)
  have sem0: "Semester (?U ! i) = Semester (?S ! i)" if "i < length ?S" for i
  proof -
    have "map Semester ?U ! i = map Semester ?S ! i" by (simp only: Semester_upd_only)
    with that len0 show ?thesis by simp
  qed
  have newA: "Semester a \<notin> Semester ` set ?S" if "a \<in> set ?A" for a
    using that by (simp add: idx_by_sem_None)
  have fixed: "\<exists>i. idx_by_sem ?T (Semester g) = Some i \<and> merge_into (?T ! i) g = ?T ! i"
    if g: "g \<in> set f" for g
  proof (cases "?idx (Semester g)")
    case (Some i)
    have i: "i < length ?S" using Some by (rule idx_by_sem_bound)
    have k: "Semester (?S ! i) = Semester g" using Some by (rule idx_by_sem_key)
    have inS: "Semester g \<in> Semester ` set ?S" using i k by (metis imageI nth_mem)
    have 1: "i < length ?T" using i len0 by simp
    have 2: "Semester (?T ! i) = Semester g" using i len0 k by (simp add: nth_append sem0)
    have 3: "\<forall>j. i < j \<and> j < length ?T \<longrightarrow> Semester (?T ! j) \<noteq> Semester g"
    proof (intro allI impI)
      fix j assume j: "i < j \<and> j < length ?T"
      show "Semester (?T ! j) \<noteq> Semester g"
      proof (cases "j < length ?S")
        case True
        with j idx_by_sem_last[OF Some, of j] len0 show ?thesis by (simp add: nth_append sem0)
      next
        case False
        with j len0 have p: "j - length ?U < length ?A" "?T ! j = ?A ! (j - length ?U)"
          by (auto simp: nth_append)
        from p(1) have "?A ! (j - length ?U) \<in> set ?A" by (rule nth_mem)
        with p(2) have "?T ! j \<in> set ?A" by (simp only:)
        from newA[OF this] inS show ?thesis by metis
      qed
    qed
    have "idx_by_sem ?T (Semester g) = Some i" using idx_by_sem_SomeI[OF 1 2 3] .
    moreover have "merge_into (?T ! i) g = ?T ! i"
      using upd_only_absorbs[of g f ?idx i ?S, OF g Some i] i len0 by (simp add: nth_append)
    ultimately show ?thesis by blast
  next
    case None
    with g have "g \<in> set ?A" by simp
    then obtain q where q: "q < length ?A" "?A ! q = g" by (meson in_set_conv_nth)
    let ?i = "length ?U + q"
    have 1: "?i < length ?T" using q(1) by simp
    have 2: "Semester (?T ! ?i) = Semester g" using q by (simp add: nth_append)
    have 3: "\<forall>j. ?i < j \<and> j < length ?T \<longrightarrow> Semester (?T ! j) \<noteq> Semester g"
    proof (intro allI impI)
      fix j assume j: "?i < j \<and> j < length ?T"
      let ?p = "j - length ?U"
      from j have p: "?p < length ?A" "q < ?p" "?T ! j = ?A ! ?p" by (auto simp: nth_append)
      have "Semester (?A ! ?p) \<noteq> Semester (?A ! q)"
        using dA p(1,2) by (rule distinct_map_nth_neq)
      with p(3) q(2) show "Semester (?T ! j) \<noteq> Semester g" by metis
    qed
    have "idx_by_sem ?T (Semester g) = Some ?i" using idx_by_sem_SomeI[OF 1 2 3] .
    moreover have "merge_into (?T ! ?i) g = ?T ! ?i"
      using q by (simp add: nth_append merge_into_self)
    ultimately show ?thesis by blast
  qed
  have "fold (merge_step (idx_by_sem ?T)) f ?T = ?T"
    using fixed by (intro fold_merge_step_fixed) blast
  then show ?thesis
    by (simp add: merge_semesters_def Let_def T)
qed

lemma ensure_student_idempotent:
  "ensure_student (ensure_student rm usn name cgpa) usn name cgpa = ensure_student rm usn name cgpa"
  by (cases name) (auto simp: ensure_student_def Let_def truthy_def or_empty_def split: option.splits)

lemma Name_merge_semesters: "Name (merge_semesters st f) = Name st"
  and CGPA_merge_semesters: "CGPA (merge_semesters st f) = CGPA st"
  and USN_merge_semesters: "USN (merge_semesters st f) = USN st"
  by (simp_all add: merge_semesters_def Let_def)

lemma ensure_student_lookup:
  "\<exists>stu. ensure_student rm usn name cgpa usn = Some stu \<and>
         Semesters stu = (case rm usn of None \<Rightarrow> [] | Some st \<Rightarrow> Semesters st) \<and>
         (truthy name \<and> (Name stu = [] \<or> Name stu = ''Name Not Found'') \<longrightarrow> Name stu = or_empty name) \<and>
         (cgpa \<noteq> None \<longrightarrow> CGPA stu = cgpa)"
  by (cases name) (auto simp: ensure_student_def Let_def truthy_def or_empty_def split: option.splits)

lemma ensure_student_fixed:
  assumes "rm usn = Some stu"
    and "truthy name \<and> (Name stu = [] \<or> Name stu = ''Name Not Found'') \<longrightarrow> Name stu = or_empty name"
    and "cgpa \<noteq> None \<longrightarrow> CGPA stu = cgpa"
  shows "ensure_student rm usn name cgpa = rm"
proof -
  have "(if truthy name \<and> (Name stu = [] \<or> Name stu = ''Name Not Found'')
         then stu\<lparr>Name := or_empty name\<rparr> else stu) = stu"
    using assms(2) by (cases stu) auto
  moreover have "(if cgpa \<noteq> None then stu\<lparr>CGPA := cgpa\<rparr> else stu) = stu"
    using assms(3) by (cases stu) auto
  ultimately show ?thesis
    using assms(1) by (simp add: ensure_student_def Let_def fun_upd_idem)
qed

lemma merge_idempotent_distinct_numbers:
  assumes "distinct (map Semester
             (filter (\<lambda>g. Semester g \<notin> (case rm usn of None \<Rightarrow> {}
                                            | Some st \<Rightarrow> Semester ` set (Semesters st))) f))"
  shows "merge (merge rm usn name cgpa f) usn name cgpa f = merge rm usn name cgpa f"
proof -
  let ?rm1 = "ensure_student rm usn name cgpa"
  from ensure_student_lookup[of rm usn name cgpa] obtain stu where
    stu: "?rm1 usn = Some stu"
      "Semesters stu = (case rm usn of None \<Rightarrow> [] | Some st \<Rightarrow> Semesters st)"
      "truthy name \<and> (Name stu = [] \<or> Name stu = ''Name Not Found'') \<longrightarrow> Name stu = or_empty name"
      "cgpa \<noteq> None \<longrightarrow> CGPA stu = cgpa"
    by blast
  let ?stu2 = "merge_semesters stu f"
  let ?rm2 = "?rm1(usn \<mapsto> ?stu2)"
  have m1: "merge rm usn name cgpa f = ?rm2"
    using stu(1) by (simp add: merge_def)
  have d: "distinct (map Semester (filter (\<lambda>g. Semester g \<notin> Semester ` set (Semesters stu)) f))"
    using assms stu(2) by (cases "rm usn") simp_all
  have e: "ensure_student ?rm2 usn name cgpa = ?rm2"
    by (rule ensure_student_fixed[where stu = ?stu2])
       (use stu(3,4) in \<open>simp_all add: Name_merge_semesters CGPA_merge_semesters\<close>)
  have "merge ?rm2 usn name cgpa f = ?rm2(usn \<mapsto> merge_semesters ?stu2 f)"
    by (simp add: merge_def e)
  also have "\<dots> = ?rm2"
    by (simp add: merge_semesters_idempotent[OF d])
  finally show ?thesis by (simp only: m1)
qed

section \<open>Properties of the enumeration loop\<close>

lemma submitted_append: "submitted (xs @ ys) = submitted xs @ submitted ys"
  by (induction xs rule: submitted.induct) auto

lemma trailing_absent_Nil: "trailing_absent [] = 0"
  by (simp add: trailing_absent_def)

lemma trailing_absent_snoc:
  "trailing_absent (rs @ [r]) =
     (if is_raised r then trailing_absent rs
      else if is_absent r then Suc (trailing_absent rs) else 0)"
  by (simp add: trailing_absent_def)

lemma track_loop_append:
  "track_loop th y b s (xs @ ys) =
     (case track_loop th y b s xs of Break s' \<Rightarrow> Break s' | Pending s' \<Rightarrow> track_loop th y b s' ys)"
  by (induction xs arbitrary: s) (auto simp: Let_def split: sum.splits)

lemma track_loop_single_Pending:
  assumes "track_loop th y b s [r] = Pending s'"
  shows "consec_oops s' = (if is_raised r then consec_oops s
                           else if is_absent r then Suc (consec_oops s) else 0)"
    and "roll s' = Suc (roll s)"
    and "is_absent r \<longrightarrow> Suc (consec_oops s) < th"
    and "submitted (events s') = submitted (events s) @ [usn_of y b (roll s)]"
  using assms
  by (auto simp: Let_def is_raised_def is_absent_def submitted_append split: sum.splits if_splits)

lemma track_loop_single_Break:
  assumes "track_loop th y b s [r] = Break s'"
  shows "is_absent r" and "consec_oops s' = Suc (consec_oops s)" and "th \<le> Suc (consec_oops s)"
    and "roll s' = roll s"
    and "submitted (events s') = submitted (events s) @ [usn_of y b (roll s)]"
  using assms
  by (auto simp: Let_def is_raised_def is_absent_def submitted_append split: sum.splits if_splits)

lemma track_loop_Pending:
  assumes "0 < th" and "consec_oops s0 = 0"
  shows "track_loop th y b s0 rs = Pending s \<Longrightarrow>
         consec_oops s = trailing_absent rs \<and> roll s = roll s0 + length rs \<and>
         (\<forall>m\<le>length rs. trailing_absent (take m rs) < th) \<and>
         submitted (events s) = submitted (events s0) @ map (usn_of y b) [roll s0..<roll s0 + length rs]"
proof (induction rs arbitrary: s rule: rev_induct)
  case Nil
  then show ?case using assms by (simp add: trailing_absent_Nil)
next
  case (snoc r rs)
  from snoc.prems obtain s1 where s1: "track_loop th y b s0 rs = Pending s1"
    and last: "track_loop th y b s1 [r] = Pending s"
    by (auto simp: track_loop_append split: loop_exit.splits)
  note ih = snoc.IH[OF s1]
  note st = track_loop_single_Pending[OF last]
  have c: "consec_oops s = trailing_absent (rs @ [r])"
    using st(1) ih by (simp add: trailing_absent_snoc)
  have lt: "trailing_absent (rs @ [r]) < th"
    using st(1,3) ih assms(1) c by (auto split: if_splits)
  have all: "trailing_absent (take m (rs @ [r])) < th" if "m \<le> length (rs @ [r])" for m
  proof (cases "m \<le> length rs")
    case True
    then show ?thesis using ih by simp
  next
    case False
    with that have "m = Suc (length rs)" by simp
    then show ?thesis using lt by simp
  qed
  have sub: "submitted (events s) = submitted (events s0) @ map (usn_of y b) [roll s0..<roll s0 + length (rs @ [r])]"
    using st(4) ih by simp
  show ?case using c st(2) ih all sub by simp
qed

lemma track_loop_Break:
  assumes "0 < th" and "consec_oops s0 = 0"
  shows "track_loop th y b s0 rs = Break s \<Longrightarrow>
         (\<exists>n. 1 \<le> n \<and> n \<le> length rs \<and> is_absent (rs ! (n - 1)) \<and>
              trailing_absent (take n rs) = th \<and>
              (\<forall>m<n. trailing_absent (take m rs) < th) \<and>
              roll s + 1 = roll s0 + n \<and> consec_oops s = th \<and>
              submitted (events s) = submitted (events s0) @ map (usn_of y b) [roll s0..<roll s0 + n])"
proof (induction rs arbitrary: s rule: rev_induct)
  case Nil
  then show ?case by simp
next
  case (snoc r rs)
  show ?case
  proof (cases "track_loop th y b s0 rs")
    case (Break s')
    with snoc.prems have "s' = s" by (simp add: track_loop_append)
    with Break snoc.IH[of s] obtain n where n: "1 \<le> n" "n \<le> length rs" "is_absent (rs ! (n - 1))"
      "trailing_absent (take n rs) = th" "\<forall>m<n. trailing_absent (take m rs) < th"
      "roll s + 1 = roll s0 + n" "consec_oops s = th"
      "submitted (events s) = submitted (events s0) @ map (usn_of y b) [roll s0..<roll s0 + n]"
      by auto
    show ?thesis
    proof (intro exI[of _ n] conjI)
      show "is_absent ((rs @ [r]) ! (n - 1))" using n(1,2,3) by (auto simp: nth_append)
      show "\<forall>m<n. trailing_absent (take m (rs @ [r])) < th" using n(2,5) by simp
    qed (use n in simp_all)
  next
    case (Pending s1)
    with snoc.prems have last: "track_loop th y b s1 [r] = Break s"
      by (simp add: track_loop_append)
    note p = track_loop_Pending[OF assms Pending]
    note st = track_loop_single_Break[OF last]
    have nr: "\<not> is_raised r"
      using st(1) by (auto simp: is_absent_def is_raised_def split: sum.splits)
    have lt: "trailing_absent rs < th"
      using p by (auto dest: spec[of _ "length rs"])
    have ceq: "Suc (trailing_absent rs) = th"
      using st(3) p lt by simp
    have tr: "trailing_absent (rs @ [r]) = th"
      using st(1) nr ceq by (simp add: trailing_absent_snoc)
    show ?thesis
    proof (intro exI[of _ "Suc (length rs)"] conjI)
      show "is_absent ((rs @ [r]) ! (Suc (length rs) - 1))" using st(1) by simp
      show "trailing_absent (take (Suc (length rs)) (rs @ [r])) = th" using tr by simp
      show "\<forall>m<Suc (length rs). trailing_absent (take m (rs @ [r])) < th" using p by simp
      show "roll s + 1 = roll s0 + Suc (length rs)" using st(4) p by simp
      show "consec_oops s = th" using st(2) p ceq by simp
      show "submitted (events s) = submitted (events s0) @ map (usn_of y b) [roll s0..<roll s0 + Suc (length rs)]"
        using st(5) p by simp
    qed simp_all
  qed
qed

subsection \<open>The stopping rule\<close>

text \<open>
  C3 (stopping rule).  A track starts with the counter at zero and a positive threshold.
  If the loop leaves through \<^verbatim>\<open>break\<close>, it has consumed exactly \<open>n\<close> outcomes, where the
  trailing run of Absent outcomes of the first \<open>n\<close> outcomes equals the threshold and the
  trailing run of every shorter prefix is below it; the USNs submitted are those of the
  \<open>n\<close> sequence numbers from the start, so nothing after the halting one is attempted.  If
  the loop has consumed all outcomes without leaving, no prefix reached the threshold and the
  counter is the trailing run.  A Present outcome leaves the counter at zero.
\<close>

theorem stopping_rule:
  assumes "0 < th" and "consec_oops s0 = 0"
  shows "(\<forall>s. track_loop th y b s0 rs = Break s \<longrightarrow>
            (\<exists>n. 1 \<le> n \<and> n \<le> length rs \<and>
                 trailing_absent (take n rs) = th \<and>
                 (\<forall>m<n. trailing_absent (take m rs) < th) \<and>
                 roll s + 1 = roll s0 + n \<and>
                 submitted (events s) =
                   submitted (events s0) @ map (usn_of y b) [roll s0..<roll s0 + n])) \<and>
         (\<forall>s. track_loop th y b s0 rs = Pending s \<longrightarrow>
            (\<forall>m\<le>length rs. trailing_absent (take m rs) < th) \<and>
            consec_oops s = trailing_absent rs \<and>
            roll s = roll s0 + length rs) \<and>
         (\<forall>s r. track_loop th y b s0 rs = Pending s \<and> is_present r \<longrightarrow>
            (\<exists>s'. track_loop th y b s0 (rs @ [r]) = Pending s' \<and> consec_oops s' = 0))"
proof -
  have brk: "\<exists>n. 1 \<le> n \<and> n \<le> length rs \<and>
                 trailing_absent (take n rs) = th \<and>
                 (\<forall>m<n. trailing_absent (take m rs) < th) \<and>
                 roll s + 1 = roll s0 + n \<and>
                 submitted (events s) =
                   submitted (events s0) @ map (usn_of y b) [roll s0..<roll s0 + n]"
    if "track_loop th y b s0 rs = Break s" for s
    using track_loop_Break[OF assms that] by blast
  have pend: "(\<forall>m\<le>length rs. trailing_absent (take m rs) < th) \<and>
            consec_oops s = trailing_absent rs \<and> roll s = roll s0 + length rs"
    if "track_loop th y b s0 rs = Pending s" for s
    using track_loop_Pending[OF assms that] by simp
  have reset: "\<exists>s'. track_loop th y b s0 (rs @ [r]) = Pending s' \<and> consec_oops s' = 0"
    if "track_loop th y b s0 rs = Pending s \<and> is_present r" for s r
    using that by (auto simp: track_loop_append is_present_def Let_def split: sum.splits)
  show ?thesis
    using brk pend reset by blast
qed

lemma start_usns: "map (usn_of ''21'' ''AD'') [Suc 0..<7] =
   [''1MS21AD001'', ''1MS21AD002'', ''1MS21AD003'', ''1MS21AD004'', ''1MS21AD005'', ''1MS21AD006'']"
  by code_simp

lemma scenario_run:
  "case normal_track ''21'' ''AD'' Map.empty [] scenario of
     Break s \<Rightarrow> roll s = 6 \<and> consec_oops s = 5
   | Pending s \<Rightarrow> False"
  by (simp add: normal_track_def scenario_def present_def absent_def MAX_CONSEC_OOPS_def ROLL_START_def Let_def)

theorem stopping_rule_witness:
  "\<exists>s. normal_track ''21'' ''AD'' Map.empty [] scenario = Break s \<and> roll s = 6 \<and>
        submitted (events s) =
          [''1MS21AD001'', ''1MS21AD002'', ''1MS21AD003'', ''1MS21AD004'', ''1MS21AD005'', ''1MS21AD006''] \<and>
        trailing_absent (take 6 scenario) = MAX_CONSEC_OOPS \<and>
        (\<forall>m<6. trailing_absent (take m scenario) < MAX_CONSEC_OOPS)"
proof -
  let ?s0 = "\<lparr>consec_oops = 0, roll = ROLL_START, students_map = Map.empty, events = []\<rparr>"
  obtain s where run: "track_loop MAX_CONSEC_OOPS ''21'' ''AD'' ?s0 scenario = Break s" and r: "roll s = 6"
    using scenario_run by (auto simp: normal_track_def split: loop_exit.splits)
  have h1: "0 < MAX_CONSEC_OOPS" by (simp add: MAX_CONSEC_OOPS_def)
  have h2: "consec_oops ?s0 = 0" by simp
  from stopping_rule[OF h1 h2, of "''21''" "''AD''" scenario] run
  obtain n where n: "trailing_absent (take n scenario) = MAX_CONSEC_OOPS"
      "\<forall>m<n. trailing_absent (take m scenario) < MAX_CONSEC_OOPS"
      "roll s + 1 = roll ?s0 + n"
      "submitted (events s) = submitted (events ?s0) @ map (usn_of ''21'' ''AD'') [roll ?s0..<roll ?s0 + n]"
    by blast
  from n(3) r have "n = 6" by (simp add: ROLL_START_def)
  with n r run show ?thesis
    by (simp add: normal_track_def ROLL_START_def start_usns)
qed

subsection \<open>An identifier whose processing raises\<close>





section \<open>Properties of the session functions\<close>

lemmas site_defs = cards_site_def busy_site_def blank_site_def

subsection \<open>Fragments and courses\<close>

lemma has_courses_Nil: "has_courses []"
  by (simp add: has_courses_def)

lemma has_courses_append: "has_courses (xs @ ys) \<longleftrightarrow> has_courses xs \<and> has_courses ys"
  by (auto simp: has_courses_def)

lemma read_result_page_grows:
  assumes "read_result_page ss (sems, cg) d = ((sems', cg'), d')"
  shows "\<exists>more. sems' = sems @ more \<and> has_courses more \<and> (no_course_rows ss \<longrightarrow> more = [])"
proof -
  define d3 where "d3 = snd (extract_cgpa_if_any ss (snd (extract_sgpa_from_caption ss
                           (snd (extract_semester_number_from_header ss d)))))"
  define courses where "courses = fst (extract_courses_from_visible_table ss d3)"
  have nr: "no_course_rows ss \<Longrightarrow> courses = []"
    by (simp add: no_course_rows_def courses_def)
  show ?thesis
  proof (cases "courses = []")
    case True
    with assms have "sems' = sems"
      by (simp add: read_result_page_def Let_def split_def courses_def d3_def)
    then show ?thesis by (simp add: has_courses_def)
  next
    case False
    with assms have "\<exists>n g. sems' = sems @ [\<lparr>Semester = n, SGPA = g, Courses = courses\<rparr>]"
      by (auto simp: read_result_page_def Let_def split_def courses_def d3_def)
    with False nr show ?thesis by (auto simp: has_courses_def)
  qed
qed

lemma cards_loop_grows:
  "cards_loop ss idxs (sems, cg) d = ((sems', cg'), d') \<Longrightarrow>
     \<exists>more. sems' = sems @ more \<and> has_courses more \<and> (no_course_rows ss \<longrightarrow> more = [])"
proof (induction idxs arbitrary: sems cg d)
  case Nil
  then show ?case by (simp add: has_courses_Nil)
next
  case (Cons idx rest)
  show ?case
  proof (cases "get_semester_cards ss d")
    case g: (Pair cards d1)
    show ?thesis
    proof (cases "idx \<ge> length cards")
      case True
      with Cons.prems g show ?thesis by (simp add: has_courses_Nil)
    next
      case inrange: False
      show ?thesis
      proof (cases "find_view_btn ss (cards ! idx) d1")
        case f: (Pair view_btn d2)
        show ?thesis
        proof (cases view_btn)
          case None
          with Cons.prems g inrange f have "cards_loop ss rest (sems, cg) d2 = ((sems', cg'), d')"
            by simp
          then show ?thesis by (rule Cons.IH)
        next
          case (Some btn)
          show ?thesis
          proof (cases "click_element ss btn d2")
            case c: (Pair clicked d3)
            show ?thesis
            proof (cases clicked)
              case False
              with Cons.prems g inrange f Some c
              have "cards_loop ss rest (sems, cg) d3 = ((sems', cg'), d')" by simp
              then show ?thesis by (rule Cons.IH)
            next
              case True
              show ?thesis
              proof (cases "wait_for_either ss 10 d3")
                case w: (Pair ind d4)
                show ?thesis
                proof (cases "ind = Oops")
                  case True
                  with Cons.prems g inrange f Some c \<open>clicked\<close> w
                  have "cards_loop ss rest (sems, cg)
                          (snd (go_back_to_usn_entry_keep_session ss d4)) = ((sems', cg'), d')"
                    by (simp add: split_def)
                  then show ?thesis by (rule Cons.IH)
                next
                  case False
                  obtain sems1 cg1 d5 where r: "read_result_page ss (sems, cg) d4 = ((sems1, cg1), d5)"
                    by (metis prod.exhaust)
                  from read_result_page_grows[OF r] obtain m1 where
                    m1: "sems1 = sems @ m1" "has_courses m1" "no_course_rows ss \<longrightarrow> m1 = []" by blast
                  show ?thesis
                  proof (cases "fst (back_to_cards ss d5)")
                    case True
                    with Cons.prems g inrange f Some c \<open>clicked\<close> w False r
                    have "cards_loop ss rest (sems1, cg1) (snd (back_to_cards ss d5)) = ((sems', cg'), d')"
                      by (simp add: split_def)
                    from Cons.IH[OF this] obtain m2 where "sems' = sems1 @ m2" "has_courses m2"
                      "no_course_rows ss \<longrightarrow> m2 = []"
                      by blast
                    with m1 show ?thesis by (auto simp: has_courses_append)
                  next
                    case nb: False
                    with Cons.prems g inrange f Some c \<open>clicked\<close> w False r
                    have "sems' = sems1" by (simp add: split_def)
                    with m1 show ?thesis by auto
                  qed
                qed
              qed
            qed
          qed
        qed
      qed
    qed
  qed
qed

lemma scrape_well_formed:
  assumes "scrape_current_usn_view_structured ss usn d = (res, d')"
  shows "well_formed_result res"
    and "no_course_rows ss \<Longrightarrow> fst res = False \<and> snd (snd (snd res)) = []"
proof -
  have "well_formed_result res \<and> (no_course_rows ss \<longrightarrow> fst res = False \<and> snd (snd (snd res)) = [])"
  proof (cases "fst (page_has_oops ss d)")
    case True
    with assms have "res = not_found"
      by (auto simp: scrape_current_usn_view_structured_def split_def)
    then show ?thesis by (simp add: not_found_def well_formed_result_def has_courses_def)
  next
    case no_oops: False
    define d1 where "d1 = snd (page_has_oops ss d)"
    define name where "name = fst (extract_student_name ss d1)"
    define d2 where "d2 = snd (extract_student_name ss d1)"
    define cards where "cards = fst (get_semester_cards ss d2)"
    define d3 where "d3 = snd (get_semester_cards ss d2)"
    show ?thesis
    proof (cases "cards \<noteq> []")
      case True
      obtain sems cg d4 where l: "cards_loop ss [0..<length cards] ([], None) d3 = ((sems, cg), d4)"
        by (metis prod.exhaust)
      from cards_loop_grows[OF l] have g: "has_courses sems" "no_course_rows ss \<longrightarrow> sems = []"
        by auto
      from assms no_oops True l have "res = (sems \<noteq> [], Some name, cg, sems)"
        by (auto simp: scrape_current_usn_view_structured_def split_def Let_def
              d1_def name_def d2_def cards_def d3_def)
      with g show ?thesis by (simp add: well_formed_result_def)
    next
      case no_cards: False
      define d4 where "d4 = snd (result_indicators ss d3)"
      show ?thesis
      proof (cases "fst (result_indicators ss d3)")
        case True
        obtain sems cg d5 where l: "read_result_page ss ([], None) d4 = ((sems, cg), d5)"
          by (metis prod.exhaust)
        from read_result_page_grows[OF l] have g: "has_courses sems" "no_course_rows ss \<longrightarrow> sems = []"
          by auto
        from assms no_oops no_cards True l have "res = (sems \<noteq> [], Some name, cg, sems)"
          by (auto simp: scrape_current_usn_view_structured_def split_def Let_def
                d1_def name_def d2_def cards_def d3_def d4_def)
        with g show ?thesis by (simp add: well_formed_result_def)
      next
        case False
        with assms no_oops no_cards have "res = (False, Some name, None, [])"
          by (auto simp: scrape_current_usn_view_structured_def split_def Let_def
                d1_def name_def d2_def cards_def d3_def)
        then show ?thesis by (simp add: well_formed_result_def has_courses_def)
      qed
    qed
  qed
  then show "well_formed_result res"
    and "no_course_rows ss \<Longrightarrow> fst res = False \<and> snd (snd (snd res)) = []"
    by simp_all
qed

lemma well_formed_not_found: "well_formed_result not_found"
  by (simp add: not_found_def well_formed_result_def has_courses_def)

lemma checked_not_found: "checked_result ss not_found"
  by (simp add: checked_result_def well_formed_not_found) (simp add: not_found_def)

lemma scrape_checked:
  "scrape_current_usn_view_structured ss usn d = (res, d') \<Longrightarrow> checked_result ss res"
  using scrape_well_formed[of ss usn d res d'] by (simp add: checked_result_def)

subsection \<open>The retry loop\<close>

lemma retry_loop_checked:
  "retry_loop ss retries u usn attempt d = (res, d', out) \<Longrightarrow> checked_result ss res"
proof (induction ss retries u usn attempt d arbitrary: res d' out rule: retry_loop.induct)
  case (1 ss retries u usn attempt d)
  show ?case
  proof (cases "attempt \<ge> retries + 1")
    case True
    with "1.prems" show ?thesis by (simp add: retry_loop.simps checked_not_found)
  next
    case run: False
    obtain ind d1 where w: "wait_for_either ss 12 d = (ind, d1)" by (metis prod.exhaust)
    show ?thesis
    proof (cases ind)
      case Oops
      with "1.prems" run w show ?thesis
        by (simp add: retry_loop.simps[of ss retries u usn attempt d] checked_not_found)
    next
      case Cards
      with "1.prems" run w show ?thesis
        by (auto simp: retry_loop.simps[of ss retries u usn attempt d] split: prod.splits
              dest: scrape_checked)
    next
      case Table
      with "1.prems" run w show ?thesis
        by (auto simp: retry_loop.simps[of ss retries u usn attempt d] split: prod.splits
              dest: scrape_checked)
    next
      case Timeout
      show ?thesis
      proof (cases "attempt < retries")
        case True
        obtain filled d2 where f: "set_input_value_js ss u usn d1 = (filled, d2)" by (metis prod.exhaust)
        define d3 where "d3 = (if filled then snd (click_go_button ss d2) else d2)"
        obtain captcha d4 where c: "captcha_elements ss d3 = (captcha, d4)" by (metis prod.exhaust)
        define d5 where "d5 = (if captcha then console_input ss AskCaptchaRetry d4 else d4)"
        obtain res1 d6 out1 where r: "retry_loop ss retries u usn (attempt + 1) d5 = (res1, d6, out1)"
          by (metis prod.exhaust)
        have "checked_result ss res1"
          by (rule "1.IH"[OF run refl w[symmetric] _ _ True refl f[symmetric] d3_def refl
                c[symmetric] d5_def refl r])
             (simp_all add: Timeout)
        moreover from "1.prems" run w Timeout True f c r have "res = res1"
          by (simp add: retry_loop.simps[of ss retries u usn attempt d] Let_def d3_def d5_def)
        ultimately show ?thesis by simp
      next
        case False
        with "1.prems" run w Timeout show ?thesis
          by (auto simp: retry_loop.simps[of ss retries u usn attempt d] Let_def checked_not_found
                split: prod.splits if_splits dest: scrape_checked)
      qed
    qed
  qed
qed

lemma retry_loop_checked_fst: "checked_result ss (fst (retry_loop ss retries u usn attempt d))"
  by (metis retry_loop_checked prod.collapse)

lemma submit_checked:
  assumes "submit_and_collect_usn ss usn d = (Inr res, d', out)"
  shows "checked_result ss res"
  using assms
  by (auto simp: submit_and_collect_usn_def Let_def split_def checked_not_found
        retry_loop_checked_fst split: if_splits option.splits)

lemma resolved_run_Nil: "attempt \<le> retries \<Longrightarrow> resolved_run attempt retries []"
  by (auto simp: resolved_run_def intro: exI[of _ attempt])

lemma resolved_run_step:
  assumes "resolved_run (Suc attempt) retries out" and "attempt < retries"
    and "asked = [] \<or> asked = [Ask AskCaptchaRetry]"
  shows "resolved_run attempt retries (Retrying (Suc attempt) # asked @ out)"
proof -
  from assms(1) obtain j where j: "Suc attempt \<le> j" "j \<le> retries"
    "filter is_retrying out = map Retrying [Suc (Suc attempt)..<Suc j]"
    and no: "Ask AskExhausted \<notin> set out" "StillNothing \<notin> set out"
    by (auto simp: resolved_run_def)
  have "[Suc attempt..<Suc j] = Suc attempt # [Suc (Suc attempt)..<Suc j]"
    using j(1) by (simp add: upt_conv_Cons)
  then have "filter is_retrying (Retrying (Suc attempt) # asked @ out) = map Retrying [Suc attempt..<Suc j]"
    using assms(3) j(3) by auto
  moreover have "attempt \<le> j" using j(1) by simp
  ultimately show ?thesis
    using no j(2) assms(3) unfolding resolved_run_def by auto
qed

lemma escalated_run_step:
  assumes "escalated_run (Suc attempt) retries res out" and "attempt < retries"
    and "asked = [] \<or> asked = [Ask AskCaptchaRetry]"
  shows "escalated_run attempt retries res (Retrying (Suc attempt) # asked @ out)"
proof -
  from assms(1) obtain pre post where p: "out = pre @ [RetriesExhausted, Ask AskExhausted] @ post"
    "Ask AskExhausted \<notin> set pre" "StillNothing \<notin> set pre"
    "filter is_retrying pre = map Retrying [Suc (Suc attempt)..<Suc retries]"
    "post = [] \<or> post = [StillNothing] \<and> res = not_found"
    by (auto simp: escalated_run_def)
  let ?pre = "Retrying (Suc attempt) # asked @ pre"
  have u: "[Suc attempt..<Suc retries] = Suc attempt # [Suc (Suc attempt)..<Suc retries]"
    using assms(2) by (simp add: upt_conv_Cons)
  have 1: "Retrying (Suc attempt) # asked @ out = ?pre @ [RetriesExhausted, Ask AskExhausted] @ post"
    using p(1) by simp
  have 2: "Ask AskExhausted \<notin> set ?pre" "StillNothing \<notin> set ?pre"
    using p(2,3) assms(3) by auto
  have 3: "filter is_retrying ?pre = map Retrying [Suc attempt..<Suc retries]"
    using p(4) assms(3) u by auto
  show ?thesis
    unfolding escalated_run_def using 1 2 3 p(5) by blast
qed

lemma escalated_run_now:
  "post = [] \<or> post = [StillNothing] \<and> res = not_found \<Longrightarrow>
     escalated_run retries retries res ([RetriesExhausted, Ask AskExhausted] @ post)"
  unfolding escalated_run_def by (intro exI[of _ "[]"] exI[of _ post]) simp

lemma retry_loop_shape:
  "attempt \<le> retries \<Longrightarrow> retry_loop ss retries u usn attempt d = (res, d', out) \<Longrightarrow>
     resolved_run attempt retries out \<or> escalated_run attempt retries res out"
proof (induction ss retries u usn attempt d arbitrary: res d' out rule: retry_loop.induct)
  case (1 ss retries u usn attempt d)
  from "1.prems"(1) have run: "\<not> attempt \<ge> retries + 1" by simp
  obtain ind d1 where w: "wait_for_either ss 12 d = (ind, d1)" by (metis prod.exhaust)
  note unf = retry_loop.simps[of ss retries u usn attempt d]
  show ?case
  proof (cases "ind = Timeout")
    case False
    with "1.prems" run w have "out = []"
      by (cases ind) (auto simp: unf split: prod.splits)
    with "1.prems"(1) show ?thesis by (simp add: resolved_run_Nil)
  next
    case Timeout: True
    show ?thesis
    proof (cases "attempt < retries")
      case True
      obtain filled d2 where f: "set_input_value_js ss u usn d1 = (filled, d2)" by (metis prod.exhaust)
      define d3 where "d3 = (if filled then snd (click_go_button ss d2) else d2)"
      obtain captcha d4 where c: "captcha_elements ss d3 = (captcha, d4)" by (metis prod.exhaust)
      define d5 where "d5 = (if captcha then console_input ss AskCaptchaRetry d4 else d4)"
      define asked where "asked = (if captcha then [Ask AskCaptchaRetry] else [])"
      obtain res1 d6 out1 where r: "retry_loop ss retries u usn (attempt + 1) d5 = (res1, d6, out1)"
        by (metis prod_cases3)
      have le: "attempt + 1 \<le> retries" using True by simp
      have ih: "resolved_run (attempt + 1) retries out1 \<or> escalated_run (attempt + 1) retries res1 out1"
        by (rule "1.IH"[OF run refl w[symmetric] _ _ True refl f[symmetric] d3_def refl
              c[symmetric] d5_def refl le r])
           (simp_all add: Timeout)
      from "1.prems"(2) run w Timeout True f c r
      have eq: "res = res1" "out = Retrying (Suc attempt) # asked @ out1"
        by (simp_all add: unf Let_def d3_def d5_def asked_def)
      have a: "asked = [] \<or> asked = [Ask AskCaptchaRetry]" by (simp add: asked_def)
      from ih show ?thesis
        using resolved_run_step[OF _ True a, of out1] escalated_run_step[OF _ True a, of res1 out1]
        by (auto simp: eq)
    next
      case False
      with "1.prems"(1) have at: "attempt = retries" by simp
      define post where "post = drop 2 out"
      from "1.prems"(2) run w Timeout False
      have "\<exists>post. out = [RetriesExhausted, Ask AskExhausted] @ post \<and>
              (post = [] \<or> post = [StillNothing] \<and> res = not_found)"
        by (auto simp: unf Let_def split: prod.splits if_splits)
      then show ?thesis using escalated_run_now[of _ res retries] at by auto
    qed
  qed
qed

lemma retry_loop_always_timeout:
  "\<forall>t x. fst (wait_for_either ss t x) = Timeout \<Longrightarrow> attempt \<le> retries \<Longrightarrow>
     retry_loop ss retries u usn attempt d = (res, d', out) \<Longrightarrow>
     res = not_found \<and> StillNothing \<in> set out"
proof (induction ss retries u usn attempt d arbitrary: res d' out rule: retry_loop.induct)
  case (1 ss retries u usn attempt d)
  note amb = "1.prems"(1)
  from "1.prems"(2) have run: "\<not> attempt \<ge> retries + 1" by simp
  obtain ind d1 where w: "wait_for_either ss 12 d = (ind, d1)" by (metis prod.exhaust)
  from amb w have Timeout: "ind = Timeout" by (metis fst_conv)
  note unf = retry_loop.simps[of ss retries u usn attempt d]
  show ?case
  proof (cases "attempt < retries")
    case True
    obtain filled d2 where f: "set_input_value_js ss u usn d1 = (filled, d2)" by (metis prod.exhaust)
    define d3 where "d3 = (if filled then snd (click_go_button ss d2) else d2)"
    obtain captcha d4 where c: "captcha_elements ss d3 = (captcha, d4)" by (metis prod.exhaust)
    define d5 where "d5 = (if captcha then console_input ss AskCaptchaRetry d4 else d4)"
    obtain res1 d6 out1 where r: "retry_loop ss retries u usn (attempt + 1) d5 = (res1, d6, out1)"
      by (metis prod_cases3)
    have le: "attempt + 1 \<le> retries" using True by simp
    have ih: "res1 = not_found \<and> StillNothing \<in> set out1"
      by (rule "1.IH"[OF run refl w[symmetric] _ _ True refl f[symmetric] d3_def refl
            c[symmetric] d5_def refl amb le r])
         (simp_all add: Timeout)
    from "1.prems"(3) run w Timeout True f c r
    have "res = res1" "set out1 \<subseteq> set out"
      by (auto simp: unf Let_def d3_def d5_def)
    with ih show ?thesis by auto
  next
    case False
    obtain ind2 d3 where w2: "wait_for_either ss 30 (console_input ss AskExhausted d1) = (ind2, d3)"
      by (metis prod.exhaust)
    from amb w2 have "ind2 = Timeout" by (metis fst_conv)
    with "1.prems"(3) run w Timeout False w2 show ?thesis
      by (auto simp: unf Let_def)
  qed
qed

lemma takeWhile_until: "a \<notin> set xs \<Longrightarrow> takeWhile (\<lambda>e. e \<noteq> a) (xs @ a # ys) = xs"
  by (induction xs) auto

lemma resolved_run_facts:
  assumes "resolved_run 0 retries out" and "set p \<subseteq> {Ask AskManualGo, Ask AskCaptcha}"
  shows "count_list (p @ out) (Ask AskExhausted) = 0"
    and "length (filter is_retrying (p @ out)) \<le> retries"
    and "Ask AskExhausted \<notin> set (p @ out)"
    and "StillNothing \<notin> set (p @ out)"
proof -
  from assms(1) obtain j where j: "j \<le> retries" "filter is_retrying out = map Retrying [Suc 0..<Suc j]"
    and no: "Ask AskExhausted \<notin> set out" "StillNothing \<notin> set out"
    by (auto simp: resolved_run_def)
  have p: "filter is_retrying p = []" "Ask AskExhausted \<notin> set p" "StillNothing \<notin> set p"
    using assms(2) by (auto simp: filter_empty_conv)
  show "Ask AskExhausted \<notin> set (p @ out)" "StillNothing \<notin> set (p @ out)"
    using no p by simp_all
  then show "count_list (p @ out) (Ask AskExhausted) = 0"
    by (simp only: count_list_0_iff not_False_eq_True)
  show "length (filter is_retrying (p @ out)) \<le> retries"
    using j p by simp
qed

lemma escalated_run_facts:
  assumes "escalated_run 0 retries res out" and "set p \<subseteq> {Ask AskManualGo, Ask AskCaptcha}"
  shows "count_list (p @ out) (Ask AskExhausted) = 1"
    and "length (filter is_retrying (p @ out)) = retries"
    and "filter is_retrying (takeWhile (\<lambda>e. e \<noteq> Ask AskExhausted) (p @ out))
           = map Retrying [Suc 0..<Suc retries]"
    and "StillNothing \<in> set (p @ out) \<Longrightarrow> res = not_found"
proof -
  from assms(1) obtain pre post where e: "out = pre @ [RetriesExhausted, Ask AskExhausted] @ post"
    "Ask AskExhausted \<notin> set pre" "StillNothing \<notin> set pre"
    "filter is_retrying pre = map Retrying [Suc 0..<Suc retries]"
    "post = [] \<or> post = [StillNothing] \<and> res = not_found"
    by (auto simp: escalated_run_def)
  have p: "filter is_retrying p = []" "Ask AskExhausted \<notin> set p" "StillNothing \<notin> set p"
    using assms(2) by (auto simp: filter_empty_conv)
  have c0: "count_list (p @ pre) (Ask AskExhausted) = 0"
    using p(2) e(2) by (simp only: count_list_0_iff) simp
  have "count_list (p @ out) (Ask AskExhausted) = count_list (p @ pre) (Ask AskExhausted) + 1 +
          count_list post (Ask AskExhausted)"
    by (simp add: e(1))
  also have "\<dots> = 1" using c0 e(5) by auto
  finally show "count_list (p @ out) (Ask AskExhausted) = 1" .
  show "length (filter is_retrying (p @ out)) = retries"
    using e(1,4,5) p(1) by auto
  have "Ask AskExhausted \<notin> set (p @ pre @ [RetriesExhausted])"
    using p(2) e(2) by simp
  from takeWhile_until[OF this, of post]
  have "takeWhile (\<lambda>e. e \<noteq> Ask AskExhausted) (p @ out) = (p @ pre) @ [RetriesExhausted]"
    by (simp add: e(1))
  then show "filter is_retrying (takeWhile (\<lambda>e. e \<noteq> Ask AskExhausted) (p @ out))
           = map Retrying [Suc 0..<Suc retries]"
    using p(1) e(4) by simp
  show "res = not_found" if "StillNothing \<in> set (p @ out)"
    using that e(1,3,5) p(3) by auto
qed

lemma submit_shape:
  assumes "submit_and_collect_usn ss usn d = (r, d', out)"
  shows "(out = [] \<and> (r = Inl TimeoutException \<or> r = Inl OtherException \<or> r = Inr not_found)) \<or>
         (\<exists>u d8 res out1 p. r = Inr res \<and> out = p @ out1 \<and>
             set p \<subseteq> {Ask AskManualGo, Ask AskCaptcha} \<and>
             retry_loop ss RETRY_ON_TIMEOUT u usn 0 d8 = (res, d', out1))"
proof -
  note sdef = submit_and_collect_usn_def
  obtain there d1 where w1: "wait_usn_field ss 6 d = (there, d1)" by (metis prod.exhaust)
  obtain there2 d2 where w2:
    "(if there then (True, d1)
      else wait_usn_field ss 8 (snd (go_back_to_usn_entry_keep_session ss d1))) = (there2, d2)"
    by (metis prod.exhaust)
  obtain field d3 where fu: "find_usn_field ss d2 = (field, d3)" by (metis prod.exhaust)
  show ?thesis
  proof (cases "there2")
    case False
    with assms w1 w2 show ?thesis by (simp add: sdef)
  next
    case there: True
    show ?thesis
    proof (cases field)
      case None
      with assms w1 w2 there fu show ?thesis by (simp add: sdef)
    next
      case (Some u)
      obtain filled d4 where f: "set_input_value_js ss u usn d3 = (filled, d4)" by (metis prod.exhaust)
      show ?thesis
      proof (cases filled)
        case False
        with assms w1 w2 there fu Some f show ?thesis by (simp add: sdef)
      next
        case True
        obtain clicked d5 where c: "click_go_button ss d4 = (clicked, d5)" by (metis prod.exhaust)
        define d6 where "d6 = (if clicked then d5 else console_input ss AskManualGo d5)"
        define asked_go where "asked_go = (if clicked then [] else [Ask AskManualGo])"
        obtain captcha d7 where cp: "captcha_elements ss d6 = (captcha, d7)" by (metis prod.exhaust)
        define d8 where "d8 = (if captcha then console_input ss AskCaptcha d7 else d7)"
        define asked_captcha where "asked_captcha = (if captcha then [Ask AskCaptcha] else [])"
        obtain res d9 out1 where rl: "retry_loop ss RETRY_ON_TIMEOUT u usn 0 d8 = (res, d9, out1)"
          by (metis prod_cases3)
        from assms w1 w2 there fu Some f True c cp rl
        have eq: "r = Inr res" "d' = d9" "out = (asked_go @ asked_captcha) @ out1"
          by (simp_all add: sdef Let_def d6_def d8_def asked_go_def asked_captcha_def)
        have "set (asked_go @ asked_captcha) \<subseteq> {Ask AskManualGo, Ask AskCaptcha}"
          by (auto simp: asked_go_def asked_captcha_def)
        with eq rl show ?thesis by blast
      qed
    qed
  qed
qed

lemma busy_run:
  "submit_and_collect_usn busy_site ''1MS21AD001'' 0 =
     (Inr not_found, 3,
      [Retrying 1, Ask AskCaptchaRetry, Retrying 2, Ask AskCaptchaRetry,
       RetriesExhausted, Ask AskExhausted, StillNothing])"
  by (simp add: submit_and_collect_usn_def site_defs RETRY_ON_TIMEOUT_def retry_loop.simps Let_def)

text \<open>
  C4, as the claim states it, fails.  On a site where every wait times out and the captcha
  is back after each re-submission, the operator is asked three times: after the first
  re-submission, after the second, and when the retries are exhausted.
\<close>

theorem human_input_more_than_once:
  "snd (snd (submit_and_collect_usn busy_site ''1MS21AD001'' 0)) =
     [Retrying 1, Ask AskCaptchaRetry, Retrying 2, Ask AskCaptchaRetry,
      RetriesExhausted, Ask AskExhausted, StillNothing]"
  by (simp add: busy_run)

text \<open>
  C4, amended.  In every call the request that follows the exhausted retries is made at most
  once; the automatic re-submissions number at most \<^verbatim>\<open>RETRY_ON_TIMEOUT\<close>, and when that
  request is made, exactly the re-submissions 1 to \<^verbatim>\<open>RETRY_ON_TIMEOUT\<close> came before it.
  When the long wait after the request still shows nothing, the call returns the not-found
  tuple.  On a session where every wait times out the call never returns a found result, and
  if it got as far as the retry loop it went through the whole escalation.  Requests to solve
  a captcha that shows up again are separate and may come earlier and more than once.
\<close>

theorem retry_escalation:
  "case submit_and_collect_usn ss usn d of (r, d', out) \<Rightarrow>
     count_list out (Ask AskExhausted) \<le> 1 \<and>
     length (filter is_retrying out) \<le> RETRY_ON_TIMEOUT \<and>
     (Ask AskExhausted \<in> set out \<longrightarrow>
        filter is_retrying (takeWhile (\<lambda>e. e \<noteq> Ask AskExhausted) out)
          = map Retrying [1..<Suc RETRY_ON_TIMEOUT]) \<and>
     (StillNothing \<in> set out \<longrightarrow> Ask AskExhausted \<in> set out \<and> r = Inr not_found) \<and>
     ((\<forall>t x. fst (wait_for_either ss t x) = Timeout) \<longrightarrow>
        (\<forall>res. r = Inr res \<longrightarrow> res = not_found) \<and> (out = [] \<or> StillNothing \<in> set out))"
proof -
  obtain r d' out where s: "submit_and_collect_usn ss usn d = (r, d', out)" by (metis prod_cases3)
  let ?R = RETRY_ON_TIMEOUT
  have "count_list out (Ask AskExhausted) \<le> 1 \<and>
     length (filter is_retrying out) \<le> ?R \<and>
     (Ask AskExhausted \<in> set out \<longrightarrow>
        filter is_retrying (takeWhile (\<lambda>e. e \<noteq> Ask AskExhausted) out) = map Retrying [1..<Suc ?R]) \<and>
     (StillNothing \<in> set out \<longrightarrow> Ask AskExhausted \<in> set out \<and> r = Inr not_found) \<and>
     ((\<forall>t x. fst (wait_for_either ss t x) = Timeout) \<longrightarrow>
        (\<forall>res. r = Inr res \<longrightarrow> res = not_found) \<and> (out = [] \<or> StillNothing \<in> set out))"
  proof -
    from submit_shape[OF s] consider
      (early) "out = []" "r = Inl TimeoutException \<or> r = Inl OtherException \<or> r = Inr not_found"
    | (loop) u d8 res out1 p where "r = Inr res" "out = p @ out1"
        "set p \<subseteq> {Ask AskManualGo, Ask AskCaptcha}"
        "retry_loop ss ?R u usn 0 d8 = (res, d', out1)"
      by blast
    then show ?thesis
    proof cases
      case early
      then show ?thesis by auto
    next
      case loop
      have amb: "res = not_found \<and> StillNothing \<in> set out1"
        if "\<forall>t x. fst (wait_for_either ss t x) = Timeout"
        using retry_loop_always_timeout[OF that _ loop(4)] by simp
      from retry_loop_shape[OF _ loop(4)]
      have "resolved_run 0 ?R out1 \<or> escalated_run 0 ?R res out1" by simp
      then show ?thesis
      proof
        assume a: "resolved_run 0 ?R out1"
        note f = resolved_run_facts[OF a loop(3)]
        from f amb show ?thesis unfolding loop(1,2) by auto
      next
        assume a: "escalated_run 0 ?R res out1"
        note f = escalated_run_facts[OF a loop(3)]
        have ask: "Ask AskExhausted \<in> set (p @ out1)"
          using f(1) by (metis count_list_0_iff zero_neq_one)
        from f ask amb show ?thesis unfolding loop(1,2) by auto
      qed
    qed
  qed
  with s show ?thesis by simp
qed

theorem retry_escalation_witness:
  "fst (submit_and_collect_usn busy_site ''1MS21AD001'' 0) = Inr not_found \<and>
   Ask AskExhausted \<in> set (snd (snd (submit_and_collect_usn busy_site ''1MS21AD001'' 0))) \<and>
   filter is_retrying (takeWhile (\<lambda>e. e \<noteq> Ask AskExhausted)
       (snd (snd (submit_and_collect_usn busy_site ''1MS21AD001'' 0)))) = [Retrying 1, Retrying 2] \<and>
   count_list (snd (snd (submit_and_collect_usn busy_site ''1MS21AD001'' 0))) (Ask AskExhausted) \<le> 1"
proof -
  let ?run = "submit_and_collect_usn busy_site ''1MS21AD001'' 0"
  have still: "StillNothing \<in> set (snd (snd ?run))"
    by (simp add: busy_run)
  have up: "map Retrying [1..<Suc RETRY_ON_TIMEOUT] = [Retrying 1, Retrying 2]"
    by (simp add: RETRY_ON_TIMEOUT_def upt_rec)
  have t: "count_list (snd (snd ?run)) (Ask AskExhausted) \<le> 1 \<and>
     length (filter is_retrying (snd (snd ?run))) \<le> RETRY_ON_TIMEOUT \<and>
     (Ask AskExhausted \<in> set (snd (snd ?run)) \<longrightarrow>
        filter is_retrying (takeWhile (\<lambda>e. e \<noteq> Ask AskExhausted) (snd (snd ?run)))
          = map Retrying [1..<Suc RETRY_ON_TIMEOUT]) \<and>
     (StillNothing \<in> set (snd (snd ?run)) \<longrightarrow>
        Ask AskExhausted \<in> set (snd (snd ?run)) \<and> fst ?run = Inr not_found)"
    using retry_escalation[of busy_site "''1MS21AD001''" 0]
    by (simp only: case_prod_beta) blast
  from t still have ask: "Ask AskExhausted \<in> set (snd (snd ?run))" and nf: "fst ?run = Inr not_found"
    by blast+
  from t ask have "filter is_retrying (takeWhile (\<lambda>e. e \<noteq> Ask AskExhausted) (snd (snd ?run)))
          = map Retrying [1..<Suc RETRY_ON_TIMEOUT]" by blast
  then have r: "filter is_retrying (takeWhile (\<lambda>e. e \<noteq> Ask AskExhausted) (snd (snd ?run)))
          = [Retrying 1, Retrying 2]" by (simp only: up)
  from t have "count_list (snd (snd ?run)) (Ask AskExhausted) \<le> 1" by blast
  with nf ask r show ?thesis by blast
qed

subsection \<open>A unit that leads to the not-found page\<close>





subsection \<open>Stored semesters have courses\<close>

lemma merge_into_keeps_courses: "Courses dest \<noteq> [] \<Longrightarrow> Courses (merge_into dest sem) \<noteq> []"
  by (simp add: Courses_merge_into merge_courses_filter)

lemma merge_step_has_courses:
  assumes "has_courses sems" and "Courses sem \<noteq> []"
  shows "has_courses (merge_step idx sem sems)"
proof (cases "idx (Semester sem)")
  case None
  with assms show ?thesis by (simp add: merge_step_def has_courses_def)
next
  case (Some i)
  show ?thesis
  proof (cases "i < length sems")
    case True
    with assms(1) have "Courses (sems ! i) \<noteq> []" by (simp add: has_courses_def)
    then have "Courses (merge_into (sems ! i) sem) \<noteq> []" by (rule merge_into_keeps_courses)
    with assms(1) Some show ?thesis
      using set_update_subset_insert[of sems i "merge_into (sems ! i) sem"]
      by (auto simp: merge_step_def has_courses_def)
  next
    case False
    then have "sems[i := merge_into (sems ! i) sem] = sems" by (simp add: list_update_beyond not_less)
    with assms(1) Some show ?thesis by (simp add: merge_step_def)
  qed
qed

lemma fold_merge_step_has_courses:
  "has_courses sems \<Longrightarrow> has_courses new \<Longrightarrow> has_courses (fold (merge_step idx) new sems)"
proof (induction new arbitrary: sems)
  case Nil
  then show ?case by simp
next
  case (Cons sem new)
  from Cons.prems(2) have "Courses sem \<noteq> []" "has_courses new" by (simp_all add: has_courses_def)
  with Cons.prems(1) show ?case
    by (simp add: Cons.IH merge_step_has_courses)
qed

lemma merge_semesters_has_courses:
  "has_courses (Semesters st) \<Longrightarrow> has_courses new \<Longrightarrow>
     has_courses (Semesters (merge_semesters st new))"
  by (simp add: merge_semesters_def Let_def fold_merge_step_has_courses)

lemma stored_have_courses_upd:
  "stored_have_courses rm \<Longrightarrow> has_courses (Semesters st) \<Longrightarrow> stored_have_courses (rm(usn \<mapsto> st))"
  by (auto simp: stored_have_courses_def ran_def split: if_splits)

lemma stored_have_courses_lookup:
  "stored_have_courses rm \<Longrightarrow> rm usn = Some st \<Longrightarrow> has_courses (Semesters st)"
  by (auto simp: stored_have_courses_def ran_def)

lemma ensure_student_stored:
  "stored_have_courses rm \<Longrightarrow> stored_have_courses (ensure_student rm usn name cgpa)"
  by (auto simp: ensure_student_def Let_def has_courses_Nil
        intro!: stored_have_courses_upd dest: stored_have_courses_lookup split: option.splits)

lemma merge_stored:
  assumes "stored_have_courses rm" and "has_courses sems"
  shows "stored_have_courses (merge rm usn name cgpa sems)"
proof -
  have e: "stored_have_courses (ensure_student rm usn name cgpa)"
    using assms(1) by (rule ensure_student_stored)
  show ?thesis
  proof (cases "ensure_student rm usn name cgpa usn")
    case None
    with e show ?thesis by (simp add: merge_def)
  next
    case (Some stu)
    from stored_have_courses_lookup[OF e Some] assms(2)
    have "has_courses (Semesters (merge_semesters stu sems))"
      by (rule merge_semesters_has_courses)
    with e Some show ?thesis by (simp add: merge_def stored_have_courses_upd)
  qed
qed

lemma track_loop_stored:
  "stored_have_courses (students_map s) \<Longrightarrow> \<forall>r\<in>set rs. outcome_checked r \<Longrightarrow>
     stored_have_courses (students_map (exit_state (track_loop th y b s rs)))"
proof (induction rs arbitrary: s)
  case Nil
  then show ?case by simp
next
  case (Cons r rs)
  from Cons.prems(2) have rest: "\<forall>r\<in>set rs. outcome_checked r" by simp
  show ?case
  proof (cases r)
    case (Inl e)
    then show ?thesis using Cons.prems(1) rest by (simp add: Let_def Cons.IH)
  next
    case (Inr res)
    obtain found name cgpa sems where res: "res = (found, name, cgpa, sems)"
      by (metis prod.exhaust)
    from Cons.prems(2) Inr res have hc: "has_courses sems"
      by (simp add: outcome_checked_def well_formed_result_def)
    show ?thesis
    proof (cases found)
      case True
      have "stored_have_courses (merge (students_map s) (usn_of y b (roll s)) name cgpa sems)"
        using Cons.prems(1) hc by (rule merge_stored)
      then show ?thesis using Inr res True rest by (simp add: Let_def Cons.IH)
    next
      case False
      then show ?thesis using Inr res Cons.prems(1) rest by (simp add: Let_def Cons.IH)
    qed
  qed
qed

text \<open>
  C10.  The extractor returns a fragment only with at least one course, and its \<^verbatim>\<open>found\<close>
  flag is true exactly when it returns a fragment; on a session whose tables yield no course
  row it returns no fragment and \<^verbatim>\<open>found\<close> false.  The same holds for what
  \<^verbatim>\<open>submit_and_collect_usn\<close> returns.  A track fed with outcomes of such calls keeps every
  stored semester with a non-empty course list, and an outcome with \<^verbatim>\<open>found\<close> false adds
  one to the counter of consecutive negatives.
\<close>

theorem fragments_have_courses:
  "well_formed_result (fst (scrape_current_usn_view_structured ss usn d)) \<and>
   (no_course_rows ss \<longrightarrow>
      fst (fst (scrape_current_usn_view_structured ss usn d)) = False \<and>
      snd (snd (snd (fst (scrape_current_usn_view_structured ss usn d)))) = []) \<and>
   (\<forall>res d' out. submit_and_collect_usn ss usn d = (Inr res, d', out) \<longrightarrow> well_formed_result res) \<and>
   (\<forall>found name cgpa sems d'.
      stored_have_courses rm \<and>
      scrape_current_usn_view_structured ss usn d = ((found, name, cgpa, sems), d') \<longrightarrow>
        stored_have_courses (merge rm usn name cgpa sems)) \<and>
   (stored_have_courses (students_map s) \<and>
    (\<forall>r\<in>set rs. \<exists>u x x' out. submit_and_collect_usn ss u x = (r, x', out)) \<longrightarrow>
      stored_have_courses (students_map (exit_state (track_loop th y b s rs)))) \<and>
   (\<forall>name cgpa sems.
      consec_oops (exit_state (track_loop th y b s [Inr (False, name, cgpa, sems)]))
        = consec_oops s + 1)"
proof (intro conjI allI impI)
  obtain res d' where sc: "scrape_current_usn_view_structured ss usn d = (res, d')"
    by (metis prod.exhaust)
  show "well_formed_result (fst (scrape_current_usn_view_structured ss usn d))"
    using scrape_well_formed(1)[OF sc] by (simp add: sc)
  show "fst (fst (scrape_current_usn_view_structured ss usn d)) = False"
    if "no_course_rows ss"
    using scrape_well_formed(2)[OF sc that] by (simp add: sc)
  show "snd (snd (snd (fst (scrape_current_usn_view_structured ss usn d)))) = []"
    if "no_course_rows ss"
    using scrape_well_formed(2)[OF sc that] by (simp add: sc)
next
  fix res d' out
  assume "submit_and_collect_usn ss usn d = (Inr res, d', out)"
  then have "checked_result ss res" by (rule submit_checked)
  then show "well_formed_result res" by (simp add: checked_result_def)
next
  fix found name cgpa sems d'
  assume a: "stored_have_courses rm \<and>
      scrape_current_usn_view_structured ss usn d = ((found, name, cgpa, sems), d')"
  then have "scrape_current_usn_view_structured ss usn d = ((found, name, cgpa, sems), d')"
    by simp
  then have "well_formed_result (found, name, cgpa, sems)"
    by (rule scrape_well_formed(1))
  then have "has_courses sems" by (simp add: well_formed_result_def)
  with a show "stored_have_courses (merge rm usn name cgpa sems)"
    by (simp add: merge_stored)
next
  assume a: "stored_have_courses (students_map s) \<and>
    (\<forall>r\<in>set rs. \<exists>u x x' out. submit_and_collect_usn ss u x = (r, x', out))"
  have "outcome_checked r" if "r \<in> set rs" for r
  proof (cases r)
    case (Inl e)
    then show ?thesis by (simp add: outcome_checked_def)
  next
    case (Inr res)
    from a that Inr obtain u x x' out where "submit_and_collect_usn ss u x = (Inr res, x', out)"
      by blast
    then have "checked_result ss res" by (rule submit_checked)
    with Inr show ?thesis by (simp add: outcome_checked_def checked_result_def)
  qed
  then have "\<forall>r\<in>set rs. outcome_checked r" by blast
  with a show "stored_have_courses (students_map (exit_state (track_loop th y b s rs)))"
    by (simp add: track_loop_stored)
next
  fix name cgpa sems
  show "consec_oops (exit_state (track_loop th y b s [Inr (False, name, cgpa, sems)]))
        = consec_oops s + 1"
    by (simp add: Let_def)
qed

lemma cards_site_submit:
  "submit_and_collect_usn cards_site ''1MS21AD001'' 0 =
     (Inr (True, Some ''Asha'', None, [sem_of (Some 1) [cs301], sem_of (Some 3) [cs302]]), 0, [])"
  by (simp add: submit_and_collect_usn_def cards_site_def RETRY_ON_TIMEOUT_def
        retry_loop.simps[of _ _ _ _ 0] scrape_current_usn_view_structured_def find_view_btn_def
        read_result_page_def sem_of_def upt_rec Let_def)

lemma blank_site_no_rows: "no_course_rows blank_site"
  by (simp add: no_course_rows_def blank_site_def cards_site_def)

theorem fragments_have_courses_witness:
  "stored_have_courses (students_map (exit_state
      (normal_track ''21'' ''AD'' Map.empty []
         [fst (submit_and_collect_usn cards_site ''1MS21AD001'' 0)]))) \<and>
   fst (fst (scrape_current_usn_view_structured blank_site ''1MS21AD001'' 1)) = False \<and>
   snd (snd (snd (fst (scrape_current_usn_view_structured blank_site ''1MS21AD001'' 1)))) = [] \<and>
   well_formed_result (fst (scrape_current_usn_view_structured cards_site ''1MS21AD001'' 1))"
proof -
  let ?s0 = "\<lparr>consec_oops = 0, roll = ROLL_START, students_map = Map.empty, events = []\<rparr>"
  let ?rs = "[fst (submit_and_collect_usn cards_site ''1MS21AD001'' 0)]"
  have h1: "stored_have_courses (students_map ?s0)"
    by (simp add: stored_have_courses_def)
  have h2: "\<forall>r\<in>set ?rs. \<exists>u x x' out. submit_and_collect_usn cards_site u x = (r, x', out)"
    by (simp only: list.set ball_simps) (metis prod.collapse)
  from fragments_have_courses[of cards_site "''1MS21AD001''" 1 Map.empty ?s0 ?rs MAX_CONSEC_OOPS "''21''" "''AD''"]
       h1 h2
  have a: "stored_have_courses (students_map (exit_state (track_loop MAX_CONSEC_OOPS ''21'' ''AD'' ?s0 ?rs)))"
    and b: "well_formed_result (fst (scrape_current_usn_view_structured cards_site ''1MS21AD001'' 1))"
    by blast+
  from fragments_have_courses[of blank_site "''1MS21AD001''" 1 Map.empty ?s0 "[]" MAX_CONSEC_OOPS "''21''" "''AD''"]
       blank_site_no_rows
  have c: "fst (fst (scrape_current_usn_view_structured blank_site ''1MS21AD001'' 1)) = False \<and>
      snd (snd (snd (fst (scrape_current_usn_view_structured blank_site ''1MS21AD001'' 1)))) = []"
    by blast
  from a b c show ?thesis by (simp only: normal_track_def)
qed

end
